theory Spec2Isabelle
  imports Main "HOL-Library.AList" "HOL-Library.Multiset" "HOL-Library.Sublist"
begin

section \<open>Values, rows and Python dictionaries\<close>

text \<open>
  A cell of a MySQL row as the connector hands it to Python: \<open>None\<close>, a number or a
  string. A row fetched with a dictionary cursor is a \<open>dict\<close> from column name to
  value; Python dictionaries keep insertion order, so a row is an association list.
  Assigning to a new key appends, assigning to an existing key replaces the value in
  place: that is \<open>AList.update\<close>.
\<close>

datatype val = VNull | VInt int | VStr string

type_synonym row = "(string \<times> val) list"

datatype error = KeyError | FetchError | TargetError

text \<open>\<open>row.get(c)\<close>: \<open>None\<close> for a missing column as well as for a NULL cell.\<close>

definition row_get :: "row \<Rightarrow> string \<Rightarrow> val" where
  "row_get r c = (case map_of r c of None \<Rightarrow> VNull | Some v \<Rightarrow> v)"

text \<open>\<open>row[c]\<close>: raises \<open>KeyError\<close> for a missing column.\<close>

definition row_item :: "row \<Rightarrow> string \<Rightarrow> error + val" where
  "row_item r c = (case map_of r c of None \<Rightarrow> Inl KeyError | Some v \<Rightarrow> Inr v)"

text \<open>\<open>tuple(row[c] for c in pk)\<close>, the Row Key.\<close>

fun row_key :: "row \<Rightarrow> string list \<Rightarrow> error + val list" where
  "row_key r [] = Inr []"
| "row_key r (c # cs) =
     (case row_item r c of
        Inl e \<Rightarrow> Inl e
      | Inr v \<Rightarrow> (case row_key r cs of Inl e \<Rightarrow> Inl e | Inr vs \<Rightarrow> Inr (v # vs)))"

section \<open>The source database\<close>

text \<open>
  One row of \<open>information_schema.KEY_COLUMN_USAGE\<close>. MySQL sets
  \<open>REFERENCED_TABLE_NAME\<close> and \<open>REFERENCED_COLUMN_NAME\<close> together, so both are one
  optional pair.
\<close>

record kcu_row =
  table_schema :: string
  table_name :: string
  column_name :: string
  constraint_name :: string
  ordinal_position :: nat
  referenced :: "(string \<times> string) option"

text \<open>
  The source connection: the catalog and the tables of the connected schema, each a list
  of rows. The source is quiescent during a run, so a query is a function of this record.
  \<open>parses_unquoted\<close> is the server's parser: whether a name written into a statement
  without backticks is read as a table name (it is not for a reserved word or for a
  name with a character that ends an identifier).
\<close>

record source_db =
  key_column_usage :: "kcu_row list"
  src_tables :: "(string \<times> row list) list"
  parses_unquoted :: "string \<Rightarrow> bool"

text \<open>\<open>get_pk\<close> (lines 39-49): the function has no \<open>raise\<close>; it returns what the
  catalog query yields, in \<open>ORDINAL_POSITION\<close> order.\<close>

definition get_pk :: "source_db \<Rightarrow> string \<Rightarrow> string \<Rightarrow> string list" where
  "get_pk cursor db table =
     map column_name
       (sort_key ordinal_position
          (filter (\<lambda>r. table_schema r = db \<and> table_name r = table
                        \<and> constraint_name r = ''PRIMARY'')
             (key_column_usage cursor)))"

text \<open>
  \<open>discover_fk\<close> (lines 54-75). \<open>references\<close> and \<open>referenced_by\<close> are
  \<open>defaultdict(list)\<close>: appending under a new key creates the list.
\<close>

type_synonym edge = "string \<times> string \<times> string"
type_synonym fk_index = "(string \<times> edge list) list"

text \<open>\<open>d.get(t, [])\<close>.\<close>

definition edges_of :: "fk_index \<Rightarrow> string \<Rightarrow> edge list" where
  "edges_of d t = (case map_of d t of None \<Rightarrow> [] | Some es \<Rightarrow> es)"

text \<open>\<open>d[k].append(e)\<close> on a \<open>defaultdict(list)\<close>.\<close>

definition dl_append :: "fk_index \<Rightarrow> string \<Rightarrow> edge \<Rightarrow> fk_index" where
  "dl_append d k e = AList.update k (edges_of d k @ [e]) d"

fun discover_loop :: "kcu_row list \<Rightarrow> fk_index \<times> fk_index \<Rightarrow> fk_index \<times> fk_index" where
  "discover_loop [] acc = acc"
| "discover_loop (r # rs) (references, referenced_by) =
     (case referenced r of
        None \<Rightarrow> discover_loop rs (references, referenced_by)
      | Some (ref_tbl, ref_col) \<Rightarrow>
          discover_loop rs
            (dl_append references (table_name r) (ref_tbl, column_name r, ref_col),
             dl_append referenced_by ref_tbl (table_name r, column_name r, ref_col)))"

definition discover_fk :: "source_db \<Rightarrow> string \<Rightarrow> fk_index \<times> fk_index" where
  "discover_fk cursor db =
     discover_loop
       (filter (\<lambda>r. table_schema r = db \<and> referenced r \<noteq> None) (key_column_usage cursor))
       ([], [])"

text \<open>
  SQL equality \<open>`col` = %s\<close>: never true for NULL on either side. A row without the
  column does not match.
\<close>

definition sql_eq :: "row \<Rightarrow> string \<Rightarrow> val \<Rightarrow> bool" where
  "sql_eq r col v = (v \<noteq> VNull \<and> map_of r col = Some v)"

text \<open>
  \<open>SELECT * FROM `tbl` WHERE `col`=%s LIMIT 1\<close> with \<open>fetchone()\<close> (lines 198-202) and
  \<open>SELECT * FROM `tbl` WHERE `col`=%s\<close> with \<open>fetchall()\<close> (lines 216-220). The query
  raises when the table does not exist.
\<close>

definition select_one :: "source_db \<Rightarrow> string \<Rightarrow> string \<Rightarrow> val \<Rightarrow> error + row option" where
  "select_one cursor tbl col v =
     (case map_of (src_tables cursor) tbl of
        None \<Rightarrow> Inl FetchError
      | Some rows \<Rightarrow> Inr (find (\<lambda>r. sql_eq r col v) rows))"

definition select_all :: "source_db \<Rightarrow> string \<Rightarrow> string \<Rightarrow> val \<Rightarrow> error + row list" where
  "select_all cursor tbl col v =
     (case map_of (src_tables cursor) tbl of
        None \<Rightarrow> Inl FetchError
      | Some rows \<Rightarrow> Inr (filter (\<lambda>r. sql_eq r col v) rows))"

text \<open>
  The seed query (lines 153-161). \<open>city_filter\<close> is a list or a single value
  (\<open>cfg.get\<close> gives \<open>None\<close> when the key is absent). The query raises when the table
  does not exist, when its name, which lines 155 and 158 put into the statement without
  backticks, does not parse, when the list is empty (\<open>IN ()\<close> is a syntax error), and
  when the table has no column \<open>city\<close>. The rows of a table have the same columns, so
  the table has the column when its rows have it.
\<close>

datatype city_filter = CityList "val list" | CityOne val

definition has_column :: "row list \<Rightarrow> string \<Rightarrow> bool" where
  "has_column rows col = list_all (\<lambda>r. map_of r col \<noteq> None) rows"

definition select_seeds :: "source_db \<Rightarrow> string \<Rightarrow> city_filter \<Rightarrow> error + row list" where
  "select_seeds cursor root_table cf =
     (case map_of (src_tables cursor) root_table of
        None \<Rightarrow> Inl FetchError
      | Some rows \<Rightarrow>
          if \<not> parses_unquoted cursor root_table then Inl FetchError
          else if \<not> has_column rows ''city'' then Inl FetchError
          else
            (case cf of
               CityList vs \<Rightarrow>
                 if vs = [] then Inl FetchError
                 else Inr (filter (\<lambda>r. \<exists>v \<in> set vs. sql_eq r ''city'' v) rows)
             | CityOne v \<Rightarrow> Inr (filter (\<lambda>r. sql_eq r ''city'' v) rows)))"

section \<open>The closure builder\<close>

text \<open>
  \<open>collected\<close> is a \<open>defaultdict(dict)\<close>: table name to (Row Key to row), both levels in
  insertion order. Reading \<open>collected[t]\<close> for a new table creates an empty dictionary.
  The program does so at lines 182, 206 and 223 only, and each time the next thing it
  does is to assign into that dictionary (at 206 and 223 a key cannot be present in a
  dictionary just created), so creation and assignment are the one step \<open>coll_set\<close>.
  At line 191 the table is there: an entry is queued only when it is collected.
\<close>

type_synonym rowkey = "val list"
type_synonym collected_t = "(string \<times> (rowkey \<times> row) list) list"
type_synonym qitem = "string \<times> string list \<times> rowkey"

record bfs_state =
  collected :: collected_t
  pk_cache :: "(string \<times> string list) list"
  queue :: "qitem list"

definition coll_get :: "collected_t \<Rightarrow> string \<Rightarrow> (rowkey \<times> row) list" where
  "coll_get c t = (case map_of c t of None \<Rightarrow> [] | Some d \<Rightarrow> d)"

text \<open>\<open>collected[t][k] = r\<close>.\<close>

definition coll_set :: "collected_t \<Rightarrow> string \<Rightarrow> rowkey \<Rightarrow> row \<Rightarrow> collected_t" where
  "coll_set c t k r = AList.update t (AList.update k r (coll_get c t)) c"

text \<open>\<open>collected[t].get(k)\<close>, the view of \<open>collected\<close> as a partial map.\<close>

definition lookup :: "collected_t \<Rightarrow> string \<Rightarrow> rowkey \<Rightarrow> row option" where
  "lookup c t k = map_of (coll_get c t) k"

text \<open>\<open>ensure_pk\<close> (lines 172-175): the memoised \<open>get_pk\<close>.\<close>

definition ensure_pk ::
  "source_db \<Rightarrow> string \<Rightarrow> string \<Rightarrow> (string \<times> string list) list
     \<Rightarrow> string list \<times> (string \<times> string list) list" where
  "ensure_pk cursor db table cache =
     (case map_of cache table of
        None \<Rightarrow> (get_pk cursor db table, AList.update table (get_pk cursor db table) cache)
      | Some pk \<Rightarrow> (pk, cache))"

text \<open>
  Lines 204-208 and, identically, 221-225: key the fetched row by its table's primary
  key; insert and enqueue it when the key is new.
\<close>

definition collect_row :: "source_db \<Rightarrow> string \<Rightarrow> string \<Rightarrow> row \<Rightarrow> bfs_state \<Rightarrow> error + bfs_state" where
  "collect_row cursor db tbl r st =
     (case ensure_pk cursor db tbl (pk_cache st) of
        (pk, cache') \<Rightarrow>
          (case row_key r pk of
             Inl e \<Rightarrow> Inl e
           | Inr k \<Rightarrow>
               if lookup (collected st) tbl k \<noteq> None then Inr (st\<lparr>pk_cache := cache'\<rparr>)
               else Inr \<lparr>collected = coll_set (collected st) tbl k r,
                         pk_cache = cache',
                         queue = queue st @ [(tbl, pk, k)]\<rparr>))"

text \<open>The loop over \<open>references.get(table, [])\<close> (lines 194-208). \<open>if parent:\<close> is false
  for \<open>None\<close> and for an empty dictionary.\<close>

fun follow_parents :: "source_db \<Rightarrow> string \<Rightarrow> row \<Rightarrow> edge list \<Rightarrow> bfs_state \<Rightarrow> error + bfs_state" where
  "follow_parents cursor db row [] st = Inr st"
| "follow_parents cursor db row ((parent_tbl, fk_col, parent_pk_col) # es) st =
     (if row_get row fk_col = VNull then follow_parents cursor db row es st
      else
        (case select_one cursor parent_tbl parent_pk_col (row_get row fk_col) of
           Inl e \<Rightarrow> Inl e
         | Inr None \<Rightarrow> follow_parents cursor db row es st
         | Inr (Some parent) \<Rightarrow>
             if parent = [] then follow_parents cursor db row es st
             else
               (case collect_row cursor db parent_tbl parent st of
                  Inl e \<Rightarrow> Inl e
                | Inr st' \<Rightarrow> follow_parents cursor db row es st')))"

text \<open>The loop over the fetched children (lines 220-225).\<close>

fun collect_rows :: "source_db \<Rightarrow> string \<Rightarrow> string \<Rightarrow> row list \<Rightarrow> bfs_state \<Rightarrow> error + bfs_state" where
  "collect_rows cursor db tbl [] st = Inr st"
| "collect_rows cursor db tbl (child # rs) st =
     (case collect_row cursor db tbl child st of
        Inl e \<Rightarrow> Inl e
      | Inr st' \<Rightarrow> collect_rows cursor db tbl rs st')"

text \<open>The loop over \<open>referenced_by.get(table, [])\<close> (lines 211-225).\<close>

fun follow_children :: "source_db \<Rightarrow> string \<Rightarrow> row \<Rightarrow> edge list \<Rightarrow> bfs_state \<Rightarrow> error + bfs_state" where
  "follow_children cursor db row [] st = Inr st"
| "follow_children cursor db row ((child_tbl, child_fk_col, child_ref_col) # es) st =
     (if row_get row child_ref_col = VNull then follow_children cursor db row es st
      else
        (case select_all cursor child_tbl child_fk_col (row_get row child_ref_col) of
           Inl e \<Rightarrow> Inl e
         | Inr children \<Rightarrow>
             (case collect_rows cursor db child_tbl children st of
                Inl e \<Rightarrow> Inl e
              | Inr st' \<Rightarrow> follow_children cursor db row es st')))"

text \<open>One iteration of \<open>while q:\<close> (lines 190-225) on a non-empty queue.\<close>

definition bfs_step ::
  "source_db \<Rightarrow> string \<Rightarrow> fk_index \<Rightarrow> fk_index \<Rightarrow> bfs_state \<Rightarrow> error + bfs_state" where
  "bfs_step cursor db references referenced_by st =
     (case queue st of
        [] \<Rightarrow> Inr st
      | (table, pk_cols, pk_key) # q' \<Rightarrow>
          (case lookup (collected st) table pk_key of
             None \<Rightarrow> Inl KeyError
           | Some row \<Rightarrow>
               (case follow_parents cursor db row (edges_of references table) (st\<lparr>queue := q'\<rparr>) of
                  Inl e \<Rightarrow> Inl e
                | Inr st1 \<Rightarrow> follow_children cursor db row (edges_of referenced_by table) st1)))"

text \<open>\<open>while q:\<close> (line 189). Not returning is the value \<open>None\<close>.\<close>

partial_function (option) bfs_loop ::
  "source_db \<Rightarrow> string \<Rightarrow> fk_index \<Rightarrow> fk_index \<Rightarrow> bfs_state \<Rightarrow> (error + bfs_state) option" where
  "bfs_loop cursor db references referenced_by st =
     (if queue st = [] then Some (Inr st)
      else
        (case bfs_step cursor db references referenced_by st of
           Inl e \<Rightarrow> Some (Inl e)
         | Inr st' \<Rightarrow> bfs_loop cursor db references referenced_by st'))"

declare bfs_loop.simps [code]

text \<open>Seeding (lines 180-183): the assignment is unconditional, and so is the enqueue.\<close>

fun seed_rows :: "string \<Rightarrow> string list \<Rightarrow> row list \<Rightarrow> bfs_state \<Rightarrow> error + bfs_state" where
  "seed_rows root_table root_pk [] st = Inr st"
| "seed_rows root_table root_pk (row # rows) st =
     (case row_key row root_pk of
        Inl e \<Rightarrow> Inl e
      | Inr key \<Rightarrow>
          seed_rows root_table root_pk rows
            (st\<lparr>collected := coll_set (collected st) root_table key row,
                queue := queue st @ [(root_table, root_pk, key)]\<rparr>))"

record config =
  source_database :: string
  cfg_city_filter :: city_filter
  cfg_root_table :: string

datatype closure_result = Failed error | Empty | Closure fk_index collected_t

text \<open>Lines 139-225 of \<open>main\<close>: everything that reads the source.\<close>

definition traverse :: "config \<Rightarrow> source_db \<Rightarrow> closure_result option" where
  "traverse cfg src_cur =
     (let dbname = source_database cfg;
          root_table = cfg_root_table cfg;
          (references, referenced_by) = discover_fk src_cur dbname;
          root_pk = get_pk src_cur dbname root_table
      in case select_seeds src_cur root_table (cfg_city_filter cfg) of
           Inl e \<Rightarrow> Some (Failed e)
         | Inr seeds \<Rightarrow>
             if seeds = [] then Some Empty
             else
               (case seed_rows root_table root_pk seeds
                       \<lparr>collected = [], pk_cache = [], queue = []\<rparr> of
                  Inl e \<Rightarrow> Some (Failed e)
                | Inr st0 \<Rightarrow>
                    (case bfs_loop src_cur dbname references referenced_by st0 of
                       None \<Rightarrow> None
                     | Some (Inl e) \<Rightarrow> Some (Failed e)
                     | Some (Inr st) \<Rightarrow> Some (Closure references (collected st)))))"

section \<open>The target database\<close>

text \<open>
  The statements the program sends to the target. The target keeps its working
  contents, the contents as of the last commit, the \<open>FOREIGN_KEY_CHECKS\<close> flag and the
  log of every statement it received, whether or not the statement succeeded. Which
  tables refuse \<open>TRUNCATE\<close> and which rows the target refuses to insert (a constraint
  violation, an incompatible value) is the target's own business: two fields of the
  record.
\<close>

datatype stmt =
    SetForeignKeyChecks bool
  | Truncate string
  | Insert string "string list" "val list"
  | Commit

record target_db =
  tgt_tables :: "(string \<times> row list) list"
  tgt_committed :: "(string \<times> row list) list"
  fk_checks :: bool
  truncate_refused :: "string list"
  insert_refused :: "(string \<times> row list) list \<Rightarrow> string \<Rightarrow> row \<Rightarrow> bool"
  tgt_log :: "stmt list"

text \<open>\<open>cursor.execute\<close> on the target: the statement is logged, then it takes effect or
  raises.\<close>

definition tgt_execute :: "target_db \<Rightarrow> stmt \<Rightarrow> error option \<times> target_db" where
  "tgt_execute tgt s =
     (let tgt1 = tgt\<lparr>tgt_log := tgt_log tgt @ [s]\<rparr>
      in case s of
           SetForeignKeyChecks b \<Rightarrow> (None, tgt1\<lparr>fk_checks := b\<rparr>)
         | Truncate t \<Rightarrow>
             if map_of (tgt_tables tgt) t = None \<or> t \<in> set (truncate_refused tgt)
             then (Some TargetError, tgt1)
             else (None, tgt1\<lparr>tgt_tables := AList.update t [] (tgt_tables tgt)\<rparr>)
         | Insert t cols vals \<Rightarrow>
             (case map_of (tgt_tables tgt) t of
                None \<Rightarrow> (Some TargetError, tgt1)
              | Some rows \<Rightarrow>
                  if insert_refused tgt (tgt_tables tgt) t (zip cols vals)
                  then (Some TargetError, tgt1)
                  else (None, tgt1\<lparr>tgt_tables :=
                                     AList.update t (rows @ [zip cols vals]) (tgt_tables tgt)\<rparr>))
         | Commit \<Rightarrow> (None, tgt1\<lparr>tgt_committed := tgt_tables tgt\<rparr>))"

text \<open>\<open>tgt.commit()\<close>.\<close>

definition tgt_commit :: "target_db \<Rightarrow> target_db" where
  "tgt_commit tgt = snd (tgt_execute tgt Commit)"

text \<open>\<open>insert_row\<close> (lines 80-83).\<close>

definition insert_stmt :: "string \<Rightarrow> row \<Rightarrow> stmt" where
  "insert_stmt table row = (let cols = map fst row in Insert table cols (map (row_get row) cols))"

definition insert_row :: "target_db \<Rightarrow> string \<Rightarrow> row \<Rightarrow> error option \<times> target_db" where
  "insert_row cursor table row = tgt_execute cursor (insert_stmt table row)"

text \<open>\<open>clear_target_database\<close> (lines 89-115): a failing \<open>TRUNCATE\<close> is caught.\<close>

fun truncate_all :: "target_db \<Rightarrow> string list \<Rightarrow> target_db" where
  "truncate_all tgt [] = tgt"
| "truncate_all tgt (t # ts) = truncate_all (snd (tgt_execute tgt (Truncate t))) ts"

definition clear_target_database :: "target_db \<Rightarrow> target_db" where
  "clear_target_database tgt_cur =
     (let tables = map fst (tgt_tables tgt_cur);
          c1 = snd (tgt_execute tgt_cur (SetForeignKeyChecks False));
          c2 = truncate_all c1 tables
      in snd (tgt_execute c2 (SetForeignKeyChecks True)))"

section \<open>The materializer\<close>

text \<open>Lines 232-233: \<open>list.sort\<close> is stable, as \<open>sort_key\<close> is.\<close>

definition edge_count :: "fk_index \<Rightarrow> string \<Rightarrow> nat" where
  "edge_count references t = length (edges_of references t)"

definition ordered_tables :: "fk_index \<Rightarrow> collected_t \<Rightarrow> string list" where
  "ordered_tables references coll = sort_key (edge_count references) (map fst coll)"

text \<open>Lines 239-243: a failing insert is caught and the loop goes on.\<close>

fun insert_all :: "target_db \<Rightarrow> string \<Rightarrow> row list \<Rightarrow> target_db" where
  "insert_all tgt t [] = tgt"
| "insert_all tgt t (r # rs) = insert_all (snd (insert_row tgt t r)) t rs"

text \<open>Lines 236-245.\<close>

fun materialize :: "target_db \<Rightarrow> collected_t \<Rightarrow> string list \<Rightarrow> target_db" where
  "materialize tgt coll [] = tgt"
| "materialize tgt coll (t # ts) =
     materialize (tgt_commit (insert_all tgt t (map snd (coll_get coll t)))) coll ts"

datatype outcome = Aborted error | NoSeeds | Completed

text \<open>\<open>main\<close> (lines 121-247): the outcome and the target as the run leaves it.\<close>

definition main :: "config \<Rightarrow> source_db \<Rightarrow> target_db \<Rightarrow> (outcome \<times> target_db) option" where
  "main cfg src tgt =
     (let tgt1 = tgt_commit (clear_target_database tgt)
      in case traverse cfg src of
           None \<Rightarrow> None
         | Some (Failed e) \<Rightarrow> Some (Aborted e, tgt1)
         | Some Empty \<Rightarrow> Some (NoSeeds, tgt1)
         | Some (Closure references coll) \<Rightarrow>
             Some (Completed, materialize tgt1 coll (ordered_tables references coll)))"

section \<open>Notions used to state the properties\<close>

text \<open>The rows of a source table (none for a table that does not exist).\<close>

definition rows_of :: "source_db \<Rightarrow> string \<Rightarrow> row list" where
  "rows_of src t = (case map_of (src_tables src) t of None \<Rightarrow> [] | Some rows \<Rightarrow> rows)"

text \<open>The state after at most \<open>n\<close> iterations of \<open>while q:\<close>.\<close>

fun bfs_iter ::
  "source_db \<Rightarrow> string \<Rightarrow> fk_index \<Rightarrow> fk_index \<Rightarrow> nat \<Rightarrow> bfs_state \<Rightarrow> error + bfs_state" where
  "bfs_iter cursor db references referenced_by 0 st = Inr st"
| "bfs_iter cursor db references referenced_by (Suc n) st =
     (if queue st = [] then Inr st
      else
        (case bfs_step cursor db references referenced_by st of
           Inl e \<Rightarrow> Inl e
         | Inr st' \<Rightarrow> bfs_iter cursor db references referenced_by n st'))"

text \<open>A Python dictionary has each key once, at both levels of \<open>collected\<close>.\<close>

definition coll_wf :: "collected_t \<Rightarrow> bool" where
  "coll_wf c = (distinct (map fst c) \<and> (\<forall>(t, d) \<in> set c. distinct (map fst d)))"

text \<open>Every memoised primary key is what \<open>get_pk\<close> returns.\<close>

definition cache_ok :: "source_db \<Rightarrow> string \<Rightarrow> (string \<times> string list) list \<Rightarrow> bool" where
  "cache_ok cursor db cache = (\<forall>t pk. map_of cache t = Some pk \<longrightarrow> pk = get_pk cursor db t)"

text \<open>Every collected row is a row of its source table, stored under its Row Key.\<close>

definition from_source :: "source_db \<Rightarrow> string \<Rightarrow> collected_t \<Rightarrow> bool" where
  "from_source cursor db c =
     (\<forall>t k r. lookup c t k = Some r \<longrightarrow>
        r \<in> set (rows_of cursor t) \<and> row_key r (get_pk cursor db t) = Inr k)"

text \<open>
  An outgoing edge of a collected row is settled when its value is null, or a row of the
  referenced table with that value in the referenced column is collected, or the source
  has no such row.
\<close>

definition edge_ok :: "source_db \<Rightarrow> collected_t \<Rightarrow> row \<Rightarrow> edge \<Rightarrow> bool" where
  "edge_ok src coll r e =
     (case e of
        (parent_tbl, fk_col, parent_col) \<Rightarrow>
          row_get r fk_col = VNull
          \<or> (\<exists>(k, p) \<in> set (coll_get coll parent_tbl). sql_eq p parent_col (row_get r fk_col))
          \<or> \<not> (\<exists>p \<in> set (rows_of src parent_tbl). sql_eq p parent_col (row_get r fk_col)))"

definition closure_complete :: "source_db \<Rightarrow> fk_index \<Rightarrow> collected_t \<Rightarrow> bool" where
  "closure_complete src references coll =
     (\<forall>(t, d) \<in> set coll. \<forall>(k, r) \<in> set d. \<forall>e \<in> set (edges_of references t). edge_ok src coll r e)"

text \<open>The primary key that the catalog reports for a table identifies the table's rows.\<close>

definition pk_identifies :: "source_db \<Rightarrow> string \<Rightarrow> bool" where
  "pk_identifies src db =
     (\<forall>t \<in> set (map fst (src_tables src)).
        \<forall>r1 \<in> set (rows_of src t). \<forall>r2 \<in> set (rows_of src t).
          row_key r1 (get_pk src db t) = row_key r2 (get_pk src db t) \<longrightarrow> r1 = r2)"

text \<open>Every collected row is still queued or has all its outgoing edges settled.\<close>

definition settled :: "source_db \<Rightarrow> fk_index \<Rightarrow> bfs_state \<Rightarrow> (string \<times> rowkey) set \<Rightarrow> bool" where
  "settled src references st X =
     (\<forall>t k r. lookup (collected st) t k = Some r \<longrightarrow>
        (t, k) \<in> X \<or> (\<exists>pk. (t, pk, k) \<in> set (queue st))
        \<or> (\<forall>e \<in> set (edges_of references t). edge_ok src (collected st) r e))"

text \<open>
  The primary key \<open>ensure_pk\<close> will use for a table, the Row Keys the source can ever
  yield under those keys, and the bound on the remaining iterations: the Row Keys not
  yet collected plus the queue length.
\<close>

definition eff_pk :: "source_db \<Rightarrow> string \<Rightarrow> (string \<times> string list) list \<Rightarrow> string \<Rightarrow> string list" where
  "eff_pk cursor db cache t = fst (ensure_pk cursor db t cache)"

definition key_universe :: "source_db \<Rightarrow> string \<Rightarrow> (string \<times> string list) list \<Rightarrow> (string \<times> rowkey) set" where
  "key_universe cursor db cache =
     (\<Union>t \<in> set (map fst (src_tables cursor)). \<Union>r \<in> set (rows_of cursor t).
        (case row_key r (eff_pk cursor db cache t) of Inl e \<Rightarrow> {} | Inr k \<Rightarrow> {(t, k)}))"

definition bfs_measure :: "source_db \<Rightarrow> string \<Rightarrow> bfs_state \<Rightarrow> nat" where
  "bfs_measure cursor db st =
     card {x \<in> key_universe cursor db (pk_cache st). lookup (collected st) (fst x) (snd x) = None}
     + length (queue st)"

text \<open>The \<open>INSERT\<close> statements into one table.\<close>

fun is_insert_into :: "string \<Rightarrow> stmt \<Rightarrow> bool" where
  "is_insert_into t (Insert t' cols vals) = (t' = t)"
| "is_insert_into t s = False"

section \<open>Example databases\<close>

text \<open>
  A two-table shop: \<open>customers(id, city, region_code)\<close> with primary key \<open>id\<close> and a
  foreign key \<open>region_code\<close> to \<open>regions.code\<close>. In \<open>shop_src\<close> the table
  \<open>regions\<close> has no primary key; \<open>keyed_src\<close> declares \<open>code\<close> as its key;
  \<open>lost_src\<close> lacks the table altogether. Customer 3 points at a region that is
  gone. In \<open>orphan_src\<close> the catalog knows a foreign key from \<open>orders.customer_id\<close> to
  \<open>customers.id\<close>, and the table \<open>orders\<close> cannot be read. The server of the
  examples reads every unquoted name as a table name but the reserved word \<open>order\<close>.
\<close>

definition shop_catalog :: "kcu_row list" where
  "shop_catalog =
     [\<lparr>table_schema = ''shop'', table_name = ''customers'', column_name = ''id'',
       constraint_name = ''PRIMARY'', ordinal_position = 1, referenced = None\<rparr>,
      \<lparr>table_schema = ''shop'', table_name = ''customers'', column_name = ''region_code'',
       constraint_name = ''fk_customers_regions'', ordinal_position = 1,
       referenced = Some (''regions'', ''code'')\<rparr>]"

definition customer_1 :: row where
  "customer_1 = [(''id'', VInt 1), (''city'', VStr ''Pune''), (''region_code'', VInt 10)]"

definition customer_2 :: row where
  "customer_2 = [(''id'', VInt 2), (''city'', VStr ''Pune''), (''region_code'', VInt 20)]"

definition customer_3 :: row where
  "customer_3 = [(''id'', VInt 3), (''city'', VStr ''Oslo''), (''region_code'', VInt 30)]"

definition region_10 :: row where
  "region_10 = [(''code'', VInt 10), (''name'', VStr ''West'')]"

definition region_20 :: row where
  "region_20 = [(''code'', VInt 20), (''name'', VStr ''East'')]"

definition shop_src :: source_db where
  "shop_src =
     \<lparr>key_column_usage = shop_catalog,
      src_tables = [(''customers'', [customer_1, customer_2, customer_3]),
                    (''regions'', [region_10, region_20])],
      parses_unquoted = (\<lambda>name. name \<noteq> ''order'')\<rparr>"

definition keyed_src :: source_db where
  "keyed_src =
     \<lparr>key_column_usage =
        shop_catalog @
        [\<lparr>table_schema = ''shop'', table_name = ''regions'', column_name = ''code'',
          constraint_name = ''PRIMARY'', ordinal_position = 1, referenced = None\<rparr>],
      src_tables = [(''customers'', [customer_1, customer_2, customer_3]),
                    (''regions'', [region_10, region_20])],
      parses_unquoted = (\<lambda>name. name \<noteq> ''order'')\<rparr>"

definition lost_src :: source_db where
  "lost_src =
     \<lparr>key_column_usage = shop_catalog,
      src_tables = [(''customers'', [customer_1, customer_2, customer_3])],
      parses_unquoted = (\<lambda>name. name \<noteq> ''order'')\<rparr>"

definition orphan_src :: source_db where
  "orphan_src =
     \<lparr>key_column_usage =
        [\<lparr>table_schema = ''shop'', table_name = ''customers'', column_name = ''id'',
          constraint_name = ''PRIMARY'', ordinal_position = 1, referenced = None\<rparr>,
         \<lparr>table_schema = ''shop'', table_name = ''orders'', column_name = ''customer_id'',
          constraint_name = ''fk_orders_customers'', ordinal_position = 1,
          referenced = Some (''customers'', ''id'')\<rparr>],
      src_tables = [(''customers'', [customer_1, customer_2, customer_3])],
      parses_unquoted = (\<lambda>name. name \<noteq> ''order'')\<rparr>"

definition orphan_refs :: fk_index where
  "orphan_refs = [(''orders'', [(''customers'', ''customer_id'', ''id'')])]"

definition orphan_refby :: fk_index where
  "orphan_refby = [(''customers'', [(''orders'', ''customer_id'', ''id'')])]"

definition shop_cfg :: "string \<Rightarrow> config" where
  "shop_cfg city =
     \<lparr>source_database = ''shop'', cfg_city_filter = CityOne (VStr city),
      cfg_root_table = ''customers''\<rparr>"

definition shop_refs :: fk_index where
  "shop_refs = [(''customers'', [(''regions'', ''region_code'', ''code'')])]"

definition shop_refby :: fk_index where
  "shop_refby = [(''regions'', [(''customers'', ''region_code'', ''code'')])]"

definition shop_seeded :: bfs_state where
  "shop_seeded =
     \<lparr>collected = [(''customers'', [([VInt 1], customer_1), ([VInt 2], customer_2)])],
      pk_cache = [],
      queue = [(''customers'', [''id''], [VInt 1]), (''customers'', [''id''], [VInt 2])]\<rparr>"

definition oslo_seeded :: bfs_state where
  "oslo_seeded =
     \<lparr>collected = [(''customers'', [([VInt 3], customer_3)])],
      pk_cache = [],
      queue = [(''customers'', [''id''], [VInt 3])]\<rparr>"

definition shop_closure :: collected_t where
  "shop_closure =
     [(''customers'', [([VInt 1], customer_1), ([VInt 2], customer_2)]),
      (''regions'', [([], region_10)])]"

definition shop_final :: bfs_state where
  "shop_final =
     \<lparr>collected = shop_closure,
      pk_cache = [(''regions'', []), (''customers'', [''id''])],
      queue = []\<rparr>"

definition keyed_after_1 :: bfs_state where
  "keyed_after_1 =
     \<lparr>collected = [(''customers'', [([VInt 1], customer_1), ([VInt 2], customer_2)]),
                   (''regions'', [([VInt 10], region_10)])],
      pk_cache = [(''regions'', [''code''])],
      queue = [(''customers'', [''id''], [VInt 2]), (''regions'', [''code''], [VInt 10])]\<rparr>"

definition keyed_after_2 :: bfs_state where
  "keyed_after_2 =
     \<lparr>collected = [(''customers'', [([VInt 1], customer_1), ([VInt 2], customer_2)]),
                   (''regions'', [([VInt 10], region_10), ([VInt 20], region_20)])],
      pk_cache = [(''regions'', [''code''])],
      queue = [(''regions'', [''code''], [VInt 10]), (''regions'', [''code''], [VInt 20])]\<rparr>"

definition keyed_closure :: collected_t where
  "keyed_closure =
     [(''customers'', [([VInt 1], customer_1), ([VInt 2], customer_2)]),
      (''regions'', [([VInt 10], region_10), ([VInt 20], region_20)])]"

text \<open>
  A target that holds old rows, refuses \<open>TRUNCATE\<close> on \<open>audit\<close> and refuses to insert
  any row whose \<open>id\<close> is 1.
\<close>

definition old_tgt :: target_db where
  "old_tgt =
     \<lparr>tgt_tables = [(''customers'', [customer_3]), (''regions'', [region_20]),
                    (''audit'', [customer_1])],
      tgt_committed = [(''customers'', [customer_3]), (''regions'', [region_20]),
                       (''audit'', [customer_1])],
      fk_checks = True,
      truncate_refused = [''audit''],
      insert_refused = (\<lambda>contents t r. row_get r ''id'' = VInt 1),
      tgt_log = []\<rparr>"

definition cleared_tgt :: target_db where
  "cleared_tgt =
     \<lparr>tgt_tables = [(''customers'', []), (''regions'', []), (''audit'', [customer_1])],
      tgt_committed = [(''customers'', []), (''regions'', []), (''audit'', [customer_1])],
      fk_checks = True,
      truncate_refused = [''audit''],
      insert_refused = (\<lambda>contents t r. row_get r ''id'' = VInt 1),
      tgt_log = [SetForeignKeyChecks False, Truncate ''customers'', Truncate ''regions'',
                 Truncate ''audit'', SetForeignKeyChecks True, Commit]\<rparr>"

text \<open>
  A self-referencing table: \<open>employees.manager_id\<close> refers to \<open>employees.id\<close>, and the
  two employees manage each other.
\<close>

definition employee_1 :: row where
  "employee_1 = [(''id'', VInt 1), (''city'', VStr ''Pune''), (''manager_id'', VInt 2)]"

definition employee_2 :: row where
  "employee_2 = [(''id'', VInt 2), (''city'', VStr ''Oslo''), (''manager_id'', VInt 1)]"

definition hr_src :: source_db where
  "hr_src =
     \<lparr>key_column_usage =
        [\<lparr>table_schema = ''hr'', table_name = ''employees'', column_name = ''id'',
          constraint_name = ''PRIMARY'', ordinal_position = 1, referenced = None\<rparr>,
         \<lparr>table_schema = ''hr'', table_name = ''employees'', column_name = ''manager_id'',
          constraint_name = ''fk_manager'', ordinal_position = 1,
          referenced = Some (''employees'', ''id'')\<rparr>],
      src_tables = [(''employees'', [employee_1, employee_2])],
      parses_unquoted = (\<lambda>name. name \<noteq> ''order'')\<rparr>"

definition hr_edges :: fk_index where
  "hr_edges = [(''employees'', [(''employees'', ''manager_id'', ''id'')])]"

definition hr_seeded :: bfs_state where
  "hr_seeded =
     \<lparr>collected = [(''employees'', [([VInt 1], employee_1)])],
      pk_cache = [],
      queue = [(''employees'', [''id''], [VInt 1])]\<rparr>"

definition hr_final :: bfs_state where
  "hr_final =
     \<lparr>collected = [(''employees'', [([VInt 1], employee_1), ([VInt 2], employee_2)])],
      pk_cache = [(''employees'', [''id''])],
      queue = []\<rparr>"

section \<open>Dictionaries\<close>

lemma update_absent: "map_of d k = None \<Longrightarrow> AList.update k v d = d @ [(k, v)]"
  by (induction d) (auto split: if_splits)

lemma set_update_subset: "set (AList.update k v al) \<subseteq> insert (k, v) (set al)"
  by (induction al) auto

lemma coll_get_update: "coll_get (AList.update t d c) t' = (if t' = t then d else coll_get c t')"
  by (simp add: coll_get_def update_conv')

lemma lookup_coll_set:
  "lookup (coll_set c t k r) t' k' = (if t' = t \<and> k' = k then Some r else lookup c t' k')"
  by (simp add: lookup_def coll_set_def coll_get_update update_conv')

lemma coll_get_coll_set_new:
  "lookup c t k = None \<Longrightarrow>
   coll_get (coll_set c t k r) t' = (if t' = t then coll_get c t @ [(k, r)] else coll_get c t')"
  by (simp add: lookup_def coll_set_def coll_get_update update_absent)

lemma coll_get_distinct: "coll_wf c \<Longrightarrow> distinct (map fst (coll_get c t))"
  by (auto simp: coll_wf_def coll_get_def split: option.splits dest!: map_of_SomeD)

lemma coll_wf_coll_set: "coll_wf c \<Longrightarrow> coll_wf (coll_set c t k r)"
proof -
  assume wf: "coll_wf c"
  have d: "distinct (map fst (AList.update k r (coll_get c t)))"
    using coll_get_distinct[OF wf] by (rule distinct_update)
  have "\<forall>(t', d') \<in> set (coll_set c t k r). distinct (map fst d')"
    using set_update_subset[of t "AList.update k r (coll_get c t)" c] d wf
    by (auto simp: coll_set_def coll_wf_def)
  then show ?thesis using wf by (simp add: coll_wf_def coll_set_def distinct_update)
qed

lemma lookup_entry: "coll_wf c \<Longrightarrow> (t, d) \<in> set c \<Longrightarrow> (k, r) \<in> set d \<Longrightarrow> lookup c t k = Some r"
  by (auto simp: coll_wf_def lookup_def coll_get_def)

lemma entry_lookup: "lookup c t k = Some r \<Longrightarrow> (k, r) \<in> set (coll_get c t)"
  by (simp add: lookup_def map_of_SomeD)

lemma collect_row_cases:
  assumes "collect_row cursor db tbl r st = Inr st'"
  obtains k where "row_key r (eff_pk cursor db (pk_cache st) tbl) = Inr k"
    and "pk_cache st' = snd (ensure_pk cursor db tbl (pk_cache st))"
    and "lookup (collected st) tbl k \<noteq> None" and "collected st' = collected st" and "queue st' = queue st"
  | k where "row_key r (eff_pk cursor db (pk_cache st) tbl) = Inr k"
    and "pk_cache st' = snd (ensure_pk cursor db tbl (pk_cache st))"
    and "lookup (collected st) tbl k = None" and "collected st' = coll_set (collected st) tbl k r"
    and "queue st' = queue st @ [(tbl, eff_pk cursor db (pk_cache st) tbl, k)]"
  using assms unfolding collect_row_def eff_pk_def
  by (auto split: prod.splits sum.splits if_splits)

section \<open>Queries and the shape of the loops\<close>

lemma select_one_Some:
  "select_one cursor tbl col v = Inr (Some p) \<Longrightarrow> p \<in> set (rows_of cursor tbl) \<and> sql_eq p col v"
  by (auto simp: select_one_def rows_of_def find_Some_iff split: option.splits)

lemma select_one_None:
  "select_one cursor tbl col v = Inr None \<Longrightarrow> \<forall>p \<in> set (rows_of cursor tbl). \<not> sql_eq p col v"
  by (auto simp: select_one_def rows_of_def find_None_iff split: option.splits)

lemma select_all_rows:
  "select_all cursor tbl col v = Inr rs \<Longrightarrow> set rs \<subseteq> set (rows_of cursor tbl)"
  by (auto simp: select_all_def rows_of_def split: option.splits)

lemma collect_rows_lift:
  assumes step: "\<And>r s s'. P s \<Longrightarrow> r \<in> set (rows_of cursor tbl) \<Longrightarrow>
                   collect_row cursor db tbl r s = Inr s' \<Longrightarrow> P s'"
  shows "P st \<Longrightarrow> set rs \<subseteq> set (rows_of cursor tbl) \<Longrightarrow>
         collect_rows cursor db tbl rs st = Inr st' \<Longrightarrow> P st'"
proof (induction rs arbitrary: st)
  case Nil then show ?case by simp
next
  case (Cons r rs)
  from Cons.prems(3) obtain s where s: "collect_row cursor db tbl r st = Inr s"
    and rest: "collect_rows cursor db tbl rs s = Inr st'"
    by (auto split: sum.splits)
  have "P s" using step[OF Cons.prems(1) _ s] Cons.prems(2) by simp
  then show ?case using Cons.IH rest Cons.prems(2) by simp
qed

lemma follow_parents_lift:
  assumes step: "\<And>tbl r s s'. P s \<Longrightarrow> r \<in> set (rows_of cursor tbl) \<Longrightarrow>
                   collect_row cursor db tbl r s = Inr s' \<Longrightarrow> P s'"
  shows "P st \<Longrightarrow> follow_parents cursor db row es st = Inr st' \<Longrightarrow> P st'"
proof (induction es arbitrary: st)
  case Nil then show ?case by simp
next
  case (Cons e es)
  obtain pt fk pc where e: "e = (pt, fk, pc)" by (cases e)
  show ?case
  proof (cases "row_get row fk = VNull")
    case True
    then show ?thesis using Cons e by simp
  next
    case nn: False
    show ?thesis
    proof (cases "select_one cursor pt pc (row_get row fk)")
      case (Inl x)
      then show ?thesis using Cons.prems nn e by simp
    next
      case (Inr po)
      show ?thesis
      proof (cases po)
        case None
        then show ?thesis using Cons Inr nn e by simp
      next
        case (Some parent)
        show ?thesis
        proof (cases "parent = []")
          case True
          then show ?thesis using Cons Inr Some nn e by simp
        next
          case False
          from Cons.prems(2) obtain s where s: "collect_row cursor db pt parent st = Inr s"
            and rest: "follow_parents cursor db row es s = Inr st'"
            using Inr Some nn e False by (auto split: sum.splits)
          have "parent \<in> set (rows_of cursor pt)"
            using select_one_Some Inr Some by blast
          then have "P s" using step[OF Cons.prems(1) _ s] by simp
          then show ?thesis using Cons.IH rest by simp
        qed
      qed
    qed
  qed
qed

lemma follow_children_lift:
  assumes step: "\<And>tbl r s s'. P s \<Longrightarrow> r \<in> set (rows_of cursor tbl) \<Longrightarrow>
                   collect_row cursor db tbl r s = Inr s' \<Longrightarrow> P s'"
  shows "P st \<Longrightarrow> follow_children cursor db row es st = Inr st' \<Longrightarrow> P st'"
proof (induction es arbitrary: st)
  case Nil then show ?case by simp
next
  case (Cons e es)
  obtain ct fk rc where e: "e = (ct, fk, rc)" by (cases e)
  show ?case
  proof (cases "row_get row rc = VNull")
    case True
    then show ?thesis using Cons e by simp
  next
    case nn: False
    from Cons.prems(2) obtain rs s where rs: "select_all cursor ct fk (row_get row rc) = Inr rs"
      and s: "collect_rows cursor db ct rs st = Inr s"
      and rest: "follow_children cursor db row es s = Inr st'"
      using nn e by (auto split: sum.splits)
    have "P s"
      by (rule collect_rows_lift[where P = P, OF _ Cons.prems(1) select_all_rows[OF rs] s])
         (erule (2) step)
    then show ?thesis using Cons.IH rest by simp
  qed
qed

lemma bfs_step_lift:
  assumes step: "\<And>tbl r s s'. P s \<Longrightarrow> r \<in> set (rows_of cursor tbl) \<Longrightarrow>
                   collect_row cursor db tbl r s = Inr s' \<Longrightarrow> P s'"
    and deq: "\<And>x q'. queue st = x # q' \<Longrightarrow> P (st\<lparr>queue := q'\<rparr>)"
    and emp: "queue st = [] \<Longrightarrow> P st"
  shows "bfs_step cursor db references referenced_by st = Inr st' \<Longrightarrow> P st'"
proof (cases "queue st")
  case Nil
  then show "bfs_step cursor db references referenced_by st = Inr st' \<Longrightarrow> P st'"
    using emp by (simp add: bfs_step_def)
next
  case (Cons x q')
  assume b: "bfs_step cursor db references referenced_by st = Inr st'"
  obtain t pk k where x: "x = (t, pk, k)" by (cases x)
  from b Cons x obtain row s1 where
    p: "follow_parents cursor db row (edges_of references t) (st\<lparr>queue := q'\<rparr>) = Inr s1"
    and c: "follow_children cursor db row (edges_of referenced_by t) s1 = Inr st'"
    by (auto simp: bfs_step_def split: option.splits sum.splits)
  have "P s1"
    by (rule follow_parents_lift[where P = P, OF _ deq[OF Cons] p]) (erule (2) step)
  then show "P st'"
    by (rule follow_children_lift[where P = P, OF _ _ c, rotated]) (erule (2) step)
qed

section \<open>The collected set only grows\<close>

lemma collect_row_prefix:
  assumes "collect_row cursor db tbl r st = Inr st'"
  shows "prefix (coll_get (collected st) t) (coll_get (collected st') t)"
  using assms by (rule collect_row_cases) (simp_all add: coll_get_coll_set_new)

lemma collect_row_prefix_trans:
  "\<forall>t. prefix (coll_get c0 t) (coll_get (collected s) t) \<Longrightarrow>
   collect_row cursor db tbl r s = Inr s' \<Longrightarrow>
   \<forall>t. prefix (coll_get c0 t) (coll_get (collected s') t)"
  using collect_row_prefix prefix_order.trans by blast

lemma bfs_step_prefix:
  assumes "bfs_step cursor db references referenced_by st = Inr st'"
  shows "\<forall>t. prefix (coll_get (collected st) t) (coll_get (collected st') t)"
  by (rule bfs_step_lift[where P = "\<lambda>s. \<forall>t. prefix (coll_get (collected st) t) (coll_get (collected s) t)",
        OF _ _ _ assms])
     (simp_all add: collect_row_prefix_trans)

lemma bfs_iter_prefix:
  "bfs_iter cursor db references referenced_by n st = Inr st' \<Longrightarrow>
   prefix (coll_get (collected st) t) (coll_get (collected st') t)"
proof (induction n arbitrary: st)
  case 0 then show ?case by simp
next
  case (Suc n)
  show ?case
  proof (cases "queue st = []")
    case True then show ?thesis using Suc.prems by simp
  next
    case False
    then obtain s where s: "bfs_step cursor db references referenced_by st = Inr s"
      and r: "bfs_iter cursor db references referenced_by n s = Inr st'"
      using Suc.prems by (auto split: sum.splits)
    show ?thesis using bfs_step_prefix[OF s] Suc.IH[OF r] prefix_order.trans by blast
  qed
qed

lemma prefix_lookup:
  "prefix (coll_get c t) (coll_get c' t) \<Longrightarrow> lookup c t k = Some r \<Longrightarrow> lookup c' t k = Some r"
  by (auto simp: lookup_def prefix_def)

lemma collect_row_wf:
  assumes "coll_wf (collected s)" and "collect_row cursor db tbl r s = Inr s'"
  shows "coll_wf (collected s')"
  using assms(2) by (rule collect_row_cases) (simp_all add: assms(1) coll_wf_coll_set)

lemma bfs_step_wf:
  assumes "coll_wf (collected st)" and "bfs_step cursor db references referenced_by st = Inr st'"
  shows "coll_wf (collected st')"
  by (rule bfs_step_lift[where P = "\<lambda>s. coll_wf (collected s)", OF _ _ _ assms(2)])
     (erule (1) collect_row_wf, use assms(1) in simp_all)

lemma bfs_iter_wf:
  "coll_wf (collected st) \<Longrightarrow> bfs_iter cursor db references referenced_by n st = Inr st' \<Longrightarrow>
   coll_wf (collected st')"
proof (induction n arbitrary: st)
  case 0 then show ?case by simp
next
  case (Suc n)
  show ?case
  proof (cases "queue st = []")
    case True then show ?thesis using Suc.prems by simp
  next
    case False
    then obtain s where s: "bfs_step cursor db references referenced_by st = Inr s"
      and r: "bfs_iter cursor db references referenced_by n s = Inr st'"
      using Suc.prems by (auto split: sum.splits)
    show ?thesis using Suc.IH[OF bfs_step_wf[OF Suc.prems(1) s] r] .
  qed
qed

section \<open>Collected rows come from the source\<close>

lemma eff_pk_cache_ok: "cache_ok cursor db cache \<Longrightarrow> eff_pk cursor db cache t = get_pk cursor db t"
  by (auto simp: eff_pk_def ensure_pk_def cache_ok_def split: option.splits)

lemma cache_ok_ensure: "cache_ok cursor db cache \<Longrightarrow> cache_ok cursor db (snd (ensure_pk cursor db t cache))"
  by (auto simp: ensure_pk_def cache_ok_def update_conv' split: option.splits)

lemma collect_row_inv:
  assumes "coll_wf (collected s) \<and> cache_ok cursor db (pk_cache s) \<and> from_source cursor db (collected s)"
    and "r \<in> set (rows_of cursor tbl)"
    and "collect_row cursor db tbl r s = Inr s'"
  shows "coll_wf (collected s') \<and> cache_ok cursor db (pk_cache s') \<and> from_source cursor db (collected s')"
  using assms(3)
proof (rule collect_row_cases)
  fix k assume "pk_cache s' = snd (ensure_pk cursor db tbl (pk_cache s))" "collected s' = collected s"
  then show ?thesis using assms(1) by (simp add: cache_ok_ensure)
next
  fix k assume k: "row_key r (eff_pk cursor db (pk_cache s) tbl) = Inr k"
    and "pk_cache s' = snd (ensure_pk cursor db tbl (pk_cache s))"
    and c: "collected s' = coll_set (collected s) tbl k r"
  then have "cache_ok cursor db (pk_cache s')" using assms(1) by (simp add: cache_ok_ensure)
  moreover have "coll_wf (collected s')" using c assms(1) by (simp add: coll_wf_coll_set)
  moreover have "from_source cursor db (collected s')"
    using assms(1,2) k unfolding c from_source_def
    by (auto simp: lookup_coll_set eff_pk_cache_ok)
  ultimately show ?thesis by simp
qed

lemma bfs_step_inv:
  assumes "coll_wf (collected st) \<and> cache_ok cursor db (pk_cache st) \<and> from_source cursor db (collected st)"
    and "bfs_step cursor db references referenced_by st = Inr st'"
  shows "coll_wf (collected st') \<and> cache_ok cursor db (pk_cache st') \<and> from_source cursor db (collected st')"
  by (rule bfs_step_lift[where P = "\<lambda>s. coll_wf (collected s) \<and> cache_ok cursor db (pk_cache s) \<and> from_source cursor db (collected s)",
        OF _ _ _ assms(2)])
     (erule (2) collect_row_inv, use assms(1) in simp_all)

section \<open>Termination\<close>

lemma eff_pk_ensure:
  "eff_pk cursor db (snd (ensure_pk cursor db tbl cache)) t = eff_pk cursor db cache t"
  by (auto simp: eff_pk_def ensure_pk_def update_conv' split: option.splits)

lemma key_universe_ensure:
  "key_universe cursor db (snd (ensure_pk cursor db tbl cache)) = key_universe cursor db cache"
  by (simp add: key_universe_def eff_pk_ensure)

lemma finite_key_universe: "finite (key_universe cursor db cache)"
  by (auto simp: key_universe_def split: sum.splits)

lemma in_key_universe:
  "r \<in> set (rows_of cursor t) \<Longrightarrow> row_key r (eff_pk cursor db cache t) = Inr k \<Longrightarrow>
   (t, k) \<in> key_universe cursor db cache"
proof -
  assume r: "r \<in> set (rows_of cursor t)" and k: "row_key r (eff_pk cursor db cache t) = Inr k"
  from r have "t \<in> set (map fst (src_tables cursor))"
  proof (cases "map_of (src_tables cursor) t")
    case None then show ?thesis using r by (simp add: rows_of_def)
  next
    case (Some rows)
    then have "(t, rows) \<in> set (src_tables cursor)" by (rule map_of_SomeD)
    then show ?thesis by force
  qed
  then show ?thesis using r k unfolding key_universe_def by force
qed

lemma collect_row_measure:
  assumes "r \<in> set (rows_of cursor tbl)" and "collect_row cursor db tbl r s = Inr s'"
  shows "bfs_measure cursor db s' = bfs_measure cursor db s"
  using assms(2)
proof (rule collect_row_cases)
  fix k assume "pk_cache s' = snd (ensure_pk cursor db tbl (pk_cache s))" "collected s' = collected s"
     "queue s' = queue s"
  then show ?thesis by (simp add: bfs_measure_def key_universe_ensure)
next
  fix k assume k: "row_key r (eff_pk cursor db (pk_cache s) tbl) = Inr k"
    and pc: "pk_cache s' = snd (ensure_pk cursor db tbl (pk_cache s))"
    and none: "lookup (collected s) tbl k = None"
    and c: "collected s' = coll_set (collected s) tbl k r"
    and q: "queue s' = queue s @ [(tbl, eff_pk cursor db (pk_cache s) tbl, k)]"
  let ?U = "key_universe cursor db (pk_cache s)"
  let ?A = "{x \<in> ?U. lookup (collected s) (fst x) (snd x) = None}"
  have mem: "(tbl, k) \<in> ?A" using in_key_universe[OF assms(1) k] none by simp
  have fin: "finite ?A" using finite_key_universe by simp
  have "{x \<in> ?U. lookup (collected s') (fst x) (snd x) = None} = ?A - {(tbl, k)}"
    unfolding c by (auto simp: lookup_coll_set)
  then have "card {x \<in> ?U. lookup (collected s') (fst x) (snd x) = None} + 1 = card ?A"
    using card_Suc_Diff1[OF fin mem] by simp
  then show ?thesis by (simp add: bfs_measure_def pc key_universe_ensure q)
qed

lemma bfs_step_measure:
  assumes "queue st \<noteq> []" and "bfs_step cursor db references referenced_by st = Inr st'"
  shows "Suc (bfs_measure cursor db st') = bfs_measure cursor db st"
proof (rule bfs_step_lift[where P = "\<lambda>s. Suc (bfs_measure cursor db s) = bfs_measure cursor db st",
        OF _ _ _ assms(2)])
  fix tbl r s s'
  assume "Suc (bfs_measure cursor db s) = bfs_measure cursor db st"
    "r \<in> set (rows_of cursor tbl)" "collect_row cursor db tbl r s = Inr s'"
  then show "Suc (bfs_measure cursor db s') = bfs_measure cursor db st"
    using collect_row_measure by simp
next
  fix x q' assume "queue st = x # q'"
  then show "Suc (bfs_measure cursor db (st\<lparr>queue := q'\<rparr>)) = bfs_measure cursor db st"
    by (simp add: bfs_measure_def)
next
  assume "queue st = []"
  then show "Suc (bfs_measure cursor db st) = bfs_measure cursor db st"
    using assms(1) by simp
qed

lemma bfs_iter_finished:
  "bfs_measure cursor db st \<le> n \<Longrightarrow>
   (case bfs_iter cursor db references referenced_by n st of Inl e \<Rightarrow> True | Inr s \<Rightarrow> queue s = [])"
proof (induction n arbitrary: st)
  case 0
  then show ?case by (simp add: bfs_measure_def)
next
  case (Suc n)
  show ?case
  proof (cases "queue st = []")
    case True then show ?thesis by simp
  next
    case False
    show ?thesis
    proof (cases "bfs_step cursor db references referenced_by st")
      case (Inl e) then show ?thesis using False by simp
    next
      case (Inr s)
      have "bfs_measure cursor db s \<le> n" using bfs_step_measure[OF False Inr] Suc.prems by simp
      then show ?thesis using Suc.IH Inr False by simp
    qed
  qed
qed

lemma bfs_loop_iter:
  "(case bfs_iter cursor db references referenced_by n st of Inl e \<Rightarrow> True | Inr s \<Rightarrow> queue s = []) \<Longrightarrow>
   bfs_loop cursor db references referenced_by st = Some (bfs_iter cursor db references referenced_by n st)"
proof (induction n arbitrary: st)
  case 0
  then show ?case by (subst bfs_loop.simps) simp
next
  case (Suc n)
  show ?case
  proof (cases "queue st = []")
    case True then show ?thesis by (subst bfs_loop.simps) simp
  next
    case False
    show ?thesis
    proof (cases "bfs_step cursor db references referenced_by st")
      case (Inl e) then show ?thesis using False by (subst bfs_loop.simps) simp
    next
      case (Inr s)
      then show ?thesis using Suc.IH[of s] Suc.prems False
        by (subst bfs_loop.simps) simp
    qed
  qed
qed

lemma bfs_loop_eq:
  "bfs_loop cursor db references referenced_by st
   = Some (bfs_iter cursor db references referenced_by (bfs_measure cursor db st) st)"
  by (rule bfs_loop_iter) (rule bfs_iter_finished, simp)

lemma bfs_iter_error:
  "bfs_iter cursor db references referenced_by n st = Inl e \<Longrightarrow>
   bfs_loop cursor db references referenced_by st = Some (Inl e)"
  using bfs_loop_iter[of cursor db references referenced_by n st] by simp

section \<open>Settled rows\<close>

lemma edge_ok_mono:
  assumes "\<forall>t. prefix (coll_get c t) (coll_get c' t)" and "edge_ok src c r e"
  shows "edge_ok src c' r e"
proof -
  obtain pt fk pc where e: "e = (pt, fk, pc)" by (cases e)
  have "set (coll_get c pt) \<subseteq> set (coll_get c' pt)" using assms(1) set_mono_prefix by blast
  then show ?thesis using assms(2) unfolding e edge_ok_def by auto
qed

lemma collect_row_prefix_all:
  "collect_row cursor db tbl r s = Inr s' \<Longrightarrow> \<forall>t. prefix (coll_get (collected s) t) (coll_get (collected s') t)"
  using collect_row_prefix by blast

lemma follow_parents_prefix:
  assumes "follow_parents cursor db row es st = Inr st'"
  shows "\<forall>t. prefix (coll_get (collected st) t) (coll_get (collected st') t)"
  by (rule follow_parents_lift[where P = "\<lambda>s. \<forall>t. prefix (coll_get (collected st) t) (coll_get (collected s) t)",
        OF _ _ assms])
     (erule (1) collect_row_prefix_trans, simp)

lemma follow_children_prefix:
  assumes "follow_children cursor db row es st = Inr st'"
  shows "\<forall>t. prefix (coll_get (collected st) t) (coll_get (collected st') t)"
  by (rule follow_children_lift[where P = "\<lambda>s. \<forall>t. prefix (coll_get (collected st) t) (coll_get (collected s) t)",
        OF _ _ assms])
     (erule (1) collect_row_prefix_trans, simp)

lemma collect_row_settled:
  assumes "settled cursor references s X" and "collect_row cursor db tbl r s = Inr s'"
  shows "settled cursor references s' X"
  using assms(2)
proof (rule collect_row_cases)
  fix k assume "collected s' = collected s" "queue s' = queue s"
  then show ?thesis using assms(1) by (simp add: settled_def)
next
  fix k assume c: "collected s' = coll_set (collected s) tbl k r"
    and q: "queue s' = queue s @ [(tbl, eff_pk cursor db (pk_cache s) tbl, k)]"
  have mono: "\<forall>t. prefix (coll_get (collected s) t) (coll_get (collected s') t)"
    using collect_row_prefix_all[OF assms(2)] .
  show ?thesis
    unfolding settled_def
  proof (intro allI impI)
    fix t k0 r0 assume l: "lookup (collected s') t k0 = Some r0"
    show "(t, k0) \<in> X \<or> (\<exists>pk. (t, pk, k0) \<in> set (queue s'))
          \<or> (\<forall>e \<in> set (edges_of references t). edge_ok cursor (collected s') r0 e)"
    proof (cases "t = tbl \<and> k0 = k")
      case True
      then show ?thesis using q by auto
    next
      case False
      then have "lookup (collected s) t k0 = Some r0" using l c by (auto simp: lookup_coll_set split: if_splits)
      then have "(t, k0) \<in> X \<or> (\<exists>pk. (t, pk, k0) \<in> set (queue s))
          \<or> (\<forall>e \<in> set (edges_of references t). edge_ok cursor (collected s) r0 e)"
        using assms(1) unfolding settled_def by blast
      then show ?thesis using q edge_ok_mono[OF mono] by auto
    qed
  qed
qed

lemma rows_of_table: "r \<in> set (rows_of cursor t) \<Longrightarrow> t \<in> set (map fst (src_tables cursor))"
proof (cases "map_of (src_tables cursor) t")
  case None then show "r \<in> set (rows_of cursor t) \<Longrightarrow> ?thesis" by (simp add: rows_of_def)
next
  case (Some rows)
  then have "(t, rows) \<in> set (src_tables cursor)" by (rule map_of_SomeD)
  then show ?thesis by force
qed

lemma collect_row_has:
  assumes pk: "pk_identifies cursor db"
    and J: "coll_wf (collected s) \<and> cache_ok cursor db (pk_cache s) \<and> from_source cursor db (collected s)"
    and r: "r \<in> set (rows_of cursor tbl)"
    and cr: "collect_row cursor db tbl r s = Inr s'"
  shows "\<exists>k. (k, r) \<in> set (coll_get (collected s') tbl)"
  using cr
proof (rule collect_row_cases)
  fix k assume k: "row_key r (eff_pk cursor db (pk_cache s) tbl) = Inr k"
    and l: "lookup (collected s) tbl k \<noteq> None" and c: "collected s' = collected s"
  from l obtain p where p: "lookup (collected s) tbl k = Some p" by auto
  then have "p \<in> set (rows_of cursor tbl)" "row_key p (get_pk cursor db tbl) = Inr k"
    using J unfolding from_source_def by blast+
  moreover have "row_key r (get_pk cursor db tbl) = Inr k" using k J by (simp add: eff_pk_cache_ok)
  ultimately have "p = r" using pk r rows_of_table[OF r] unfolding pk_identifies_def by auto
  then show ?thesis using entry_lookup[OF p] c by auto
next
  fix k assume "collected s' = coll_set (collected s) tbl k r"
  then have "lookup (collected s') tbl k = Some r" by (simp add: lookup_coll_set)
  then show ?thesis using entry_lookup by blast
qed

lemma follow_parents_edges:
  assumes pk: "pk_identifies cursor db"
  shows "coll_wf (collected st) \<and> cache_ok cursor db (pk_cache st) \<and> from_source cursor db (collected st) \<Longrightarrow>
         follow_parents cursor db row es st = Inr st' \<Longrightarrow>
         \<forall>e \<in> set es. edge_ok cursor (collected st') row e"
proof (induction es arbitrary: st)
  case Nil then show ?case by simp
next
  case (Cons e es)
  obtain pt fk pc where e: "e = (pt, fk, pc)" by (cases e)
  show ?case
  proof (cases "row_get row fk = VNull")
    case True
    then have "edge_ok cursor (collected st') row e" by (simp add: e edge_ok_def)
    moreover have "follow_parents cursor db row es st = Inr st'" using Cons.prems(2) True e by simp
    ultimately show ?thesis using Cons.IH[OF Cons.prems(1)] by simp
  next
    case nn: False
    show ?thesis
    proof (cases "select_one cursor pt pc (row_get row fk)")
      case (Inl x)
      then show ?thesis using Cons.prems nn e by simp
    next
      case (Inr po)
      show ?thesis
      proof (cases po)
        case None
        then have "\<forall>p \<in> set (rows_of cursor pt). \<not> sql_eq p pc (row_get row fk)"
          using select_one_None Inr by blast
        then have "edge_ok cursor (collected st') row e" by (simp add: e edge_ok_def)
        moreover have "follow_parents cursor db row es st = Inr st'"
          using Cons.prems(2) nn e Inr None by simp
        ultimately show ?thesis using Cons.IH[OF Cons.prems(1)] by simp
      next
        case (Some parent)
        have par: "parent \<in> set (rows_of cursor pt)" "sql_eq parent pc (row_get row fk)"
          using select_one_Some Inr Some by blast+
        then have ne: "parent \<noteq> []" by (auto simp: sql_eq_def)
        from Cons.prems(2) obtain s where s: "collect_row cursor db pt parent st = Inr s"
          and rest: "follow_parents cursor db row es s = Inr st'"
          using Inr Some nn e ne by (auto split: sum.splits)
        have Js: "coll_wf (collected s) \<and> cache_ok cursor db (pk_cache s) \<and> from_source cursor db (collected s)"
          using collect_row_inv[OF Cons.prems(1) par(1) s] .
        obtain k where "(k, parent) \<in> set (coll_get (collected s) pt)"
          using collect_row_has[OF pk Cons.prems(1) par(1) s] by blast
        then have "edge_ok cursor (collected s) row e" using par(2) by (auto simp: e edge_ok_def)
        then have "edge_ok cursor (collected st') row e"
          using edge_ok_mono[OF follow_parents_prefix[OF rest]] by blast
        then show ?thesis using Cons.IH[OF Js rest] by simp
      qed
    qed
  qed
qed

lemma bfs_step_settled:
  assumes pk: "pk_identifies cursor db"
    and J: "coll_wf (collected st) \<and> cache_ok cursor db (pk_cache st) \<and> from_source cursor db (collected st)"
    and S: "settled cursor references st {}"
    and b: "bfs_step cursor db references referenced_by st = Inr st'"
  shows "settled cursor references st' {}"
proof (cases "queue st")
  case Nil
  then show ?thesis using b S by (simp add: bfs_step_def)
next
  case (Cons x q')
  obtain t pk0 k where x: "x = (t, pk0, k)" by (cases x)
  let ?P = "\<lambda>s. (coll_wf (collected s) \<and> cache_ok cursor db (pk_cache s) \<and> from_source cursor db (collected s))
                 \<and> settled cursor references s {(t, k)}"
  from b Cons x obtain row s1 where
    row: "lookup (collected st) t k = Some row"
    and p: "follow_parents cursor db row (edges_of references t) (st\<lparr>queue := q'\<rparr>) = Inr s1"
    and c: "follow_children cursor db row (edges_of referenced_by t) s1 = Inr st'"
    by (auto simp: bfs_step_def split: option.splits sum.splits)
  have step: "\<And>tbl r s s'. ?P s \<Longrightarrow> r \<in> set (rows_of cursor tbl) \<Longrightarrow>
                collect_row cursor db tbl r s = Inr s' \<Longrightarrow> ?P s'"
    using collect_row_inv collect_row_settled by blast
  have P1: "?P (st\<lparr>queue := q'\<rparr>)"
    using J S Cons x unfolding settled_def by auto
  have P2: "?P s1"
    by (rule follow_parents_lift[where P = ?P, OF _ P1 p]) (erule (2) step)
  have P3: "?P st'"
    by (rule follow_children_lift[where P = ?P, OF _ P2 c]) (erule (2) step)
  have "\<forall>e \<in> set (edges_of references t). edge_ok cursor (collected s1) row e"
    using follow_parents_edges[OF pk _ p] J by simp
  then have ok: "\<forall>e \<in> set (edges_of references t). edge_ok cursor (collected st') row e"
    using edge_ok_mono[OF follow_children_prefix[OF c]] by blast
  have "lookup (collected s1) t k = Some row"
    using prefix_lookup follow_parents_prefix[OF p] row by fastforce
  then have row': "lookup (collected st') t k = Some row"
    using prefix_lookup follow_children_prefix[OF c] by fastforce
  show ?thesis
    unfolding settled_def
  proof (intro allI impI)
    fix t0 k0 r0 assume l: "lookup (collected st') t0 k0 = Some r0"
    then have "(t0, k0) = (t, k) \<or> (\<exists>pk. (t0, pk, k0) \<in> set (queue st'))
          \<or> (\<forall>e \<in> set (edges_of references t0). edge_ok cursor (collected st') r0 e)"
      using P3 unfolding settled_def by blast
    then show "(t0, k0) \<in> {} \<or> (\<exists>pk. (t0, pk, k0) \<in> set (queue st'))
          \<or> (\<forall>e \<in> set (edges_of references t0). edge_ok cursor (collected st') r0 e)"
      using ok row' l by auto
  qed
qed

lemma bfs_iter_inv:
  "coll_wf (collected st) \<and> cache_ok cursor db (pk_cache st) \<and> from_source cursor db (collected st) \<Longrightarrow>
   bfs_iter cursor db references referenced_by n st = Inr st' \<Longrightarrow>
   coll_wf (collected st') \<and> cache_ok cursor db (pk_cache st') \<and> from_source cursor db (collected st')"
proof (induction n arbitrary: st)
  case 0 then show ?case by simp
next
  case (Suc n)
  show ?case
  proof (cases "queue st = []")
    case True then show ?thesis using Suc.prems by simp
  next
    case False
    then obtain s where s: "bfs_step cursor db references referenced_by st = Inr s"
      and r: "bfs_iter cursor db references referenced_by n s = Inr st'"
      using Suc.prems by (auto split: sum.splits)
    show ?thesis using Suc.IH[OF bfs_step_inv[OF Suc.prems(1) s] r] .
  qed
qed

lemma bfs_iter_settled:
  assumes pk: "pk_identifies cursor db"
  shows "coll_wf (collected st) \<and> cache_ok cursor db (pk_cache st) \<and> from_source cursor db (collected st) \<Longrightarrow>
   settled cursor references st {} \<Longrightarrow>
   bfs_iter cursor db references referenced_by n st = Inr st' \<Longrightarrow>
   settled cursor references st' {}"
proof (induction n arbitrary: st)
  case 0 then show ?case by simp
next
  case (Suc n)
  show ?case
  proof (cases "queue st = []")
    case True then show ?thesis using Suc.prems by simp
  next
    case False
    then obtain s where s: "bfs_step cursor db references referenced_by st = Inr s"
      and r: "bfs_iter cursor db references referenced_by n s = Inr st'"
      using Suc.prems by (auto split: sum.splits)
    show ?thesis
      using Suc.IH[OF bfs_step_inv[OF Suc.prems(1) s] bfs_step_settled[OF pk Suc.prems(1,2) s] r] .
  qed
qed

lemma settled_complete:
  assumes "coll_wf (collected st)" and "settled src references st {}" and "queue st = []"
  shows "closure_complete src references (collected st)"
  unfolding closure_complete_def
proof (intro ballI, clarify)
  fix t d k r e
  assume "(t, d) \<in> set (collected st)" "(k, r) \<in> set d" "e \<in> set (edges_of references t)"
  then show "edge_ok src (collected st) r e"
    using lookup_entry[OF assms(1)] assms(2,3) unfolding settled_def by fastforce
qed

section \<open>Seeding and the whole traversal\<close>

lemma select_seeds_rows:
  "select_seeds cursor root cf = Inr seeds \<Longrightarrow> set seeds \<subseteq> set (rows_of cursor root)"
  by (auto simp: select_seeds_def rows_of_def split: option.splits city_filter.splits if_splits)

lemma seed_rows_wf:
  "coll_wf (collected st) \<Longrightarrow> seed_rows root pk seeds st = Inr st' \<Longrightarrow> coll_wf (collected st')"
proof (induction seeds arbitrary: st)
  case Nil then show ?case by simp
next
  case (Cons r rs)
  from Cons.prems(2) obtain k where k: "row_key r pk = Inr k"
    and rest: "seed_rows root pk rs
                 (st\<lparr>collected := coll_set (collected st) root k r, queue := queue st @ [(root, pk, k)]\<rparr>) = Inr st'"
    by (auto split: sum.splits)
  show ?case by (rule Cons.IH[OF _ rest]) (simp add: coll_wf_coll_set Cons.prems(1))
qed

lemma seed_rows_inv:
  assumes sub: "set seeds \<subseteq> set (rows_of cursor root)"
  shows "coll_wf (collected st) \<and> cache_ok cursor db (pk_cache st) \<and> from_source cursor db (collected st) \<Longrightarrow>
         (\<forall>t k r. lookup (collected st) t k = Some r \<longrightarrow> (\<exists>pk. (t, pk, k) \<in> set (queue st))) \<Longrightarrow>
         seed_rows root (get_pk cursor db root) seeds st = Inr st' \<Longrightarrow>
         (coll_wf (collected st') \<and> cache_ok cursor db (pk_cache st') \<and> from_source cursor db (collected st'))
         \<and> (\<forall>t k r. lookup (collected st') t k = Some r \<longrightarrow> (\<exists>pk. (t, pk, k) \<in> set (queue st')))"
  using sub
proof (induction seeds arbitrary: st)
  case Nil then show ?case by simp
next
  case (Cons r rs)
  let ?pk = "get_pk cursor db root"
  from Cons.prems(3) obtain k where k: "row_key r ?pk = Inr k"
    and rest: "seed_rows root ?pk rs
                 (st\<lparr>collected := coll_set (collected st) root k r, queue := queue st @ [(root, ?pk, k)]\<rparr>) = Inr st'"
    by (auto split: sum.splits)
  let ?s = "st\<lparr>collected := coll_set (collected st) root k r, queue := queue st @ [(root, ?pk, k)]\<rparr>"
  have r: "r \<in> set (rows_of cursor root)" using Cons.prems(4) by simp
  have J: "coll_wf (collected ?s) \<and> cache_ok cursor db (pk_cache ?s) \<and> from_source cursor db (collected ?s)"
    using Cons.prems(1) r k by (auto simp: coll_wf_coll_set from_source_def lookup_coll_set)
  have Q: "\<forall>t k' r'. lookup (collected ?s) t k' = Some r' \<longrightarrow> (\<exists>pk. (t, pk, k') \<in> set (queue ?s))"
    using Cons.prems(2) by (auto simp: lookup_coll_set)
  show ?case using Cons.IH[OF J Q rest] Cons.prems(4) by simp
qed

lemma init_inv:
  "coll_wf (collected \<lparr>collected = [], pk_cache = [], queue = []\<rparr>)
   \<and> cache_ok cursor db (pk_cache \<lparr>collected = [], pk_cache = [], queue = []\<rparr>)
   \<and> from_source cursor db (collected \<lparr>collected = [], pk_cache = [], queue = []\<rparr>)"
  by (simp add: coll_wf_def cache_ok_def from_source_def lookup_def coll_get_def)

lemma traverse_Closure:
  assumes "traverse cfg src = Some (Closure references coll)"
  obtains referenced_by seeds st0 st n where
    "discover_fk src (source_database cfg) = (references, referenced_by)"
    "select_seeds src (cfg_root_table cfg) (cfg_city_filter cfg) = Inr seeds"
    "seeds \<noteq> []"
    "seed_rows (cfg_root_table cfg) (get_pk src (source_database cfg) (cfg_root_table cfg)) seeds
       \<lparr>collected = [], pk_cache = [], queue = []\<rparr> = Inr st0"
    "bfs_iter src (source_database cfg) references referenced_by n st0 = Inr st"
    "queue st = []" "coll = collected st"
proof -
  obtain refs refby where d: "discover_fk src (source_database cfg) = (refs, refby)" by force
  from assms d obtain seeds st0 st where
    s: "select_seeds src (cfg_root_table cfg) (cfg_city_filter cfg) = Inr seeds" "seeds \<noteq> []"
    and s0: "seed_rows (cfg_root_table cfg) (get_pk src (source_database cfg) (cfg_root_table cfg)) seeds
       \<lparr>collected = [], pk_cache = [], queue = []\<rparr> = Inr st0"
    and l: "bfs_loop src (source_database cfg) refs refby st0 = Some (Inr st)"
    and e: "refs = references" "coll = collected st"
    unfolding traverse_def Let_def
    by (auto split: sum.splits if_splits option.splits)
  let ?n = "bfs_measure src (source_database cfg) st0"
  have it: "bfs_iter src (source_database cfg) refs refby ?n st0 = Inr st"
    using l bfs_loop_eq[of src "source_database cfg" refs refby st0] by simp
  have "queue st = []"
    using bfs_iter_finished[of src "source_database cfg" st0 ?n refs refby] it by simp
  then show ?thesis using that d s s0 it e by blast
qed

lemma reach_inv:
  assumes "select_seeds src root cf = Inr seeds"
    and "seed_rows root (get_pk src db root) seeds \<lparr>collected = [], pk_cache = [], queue = []\<rparr> = Inr st0"
    and "bfs_iter src db references referenced_by n st0 = Inr st"
  shows "coll_wf (collected st) \<and> cache_ok src db (pk_cache st) \<and> from_source src db (collected st)"
proof -
  have "coll_wf (collected st0) \<and> cache_ok src db (pk_cache st0) \<and> from_source src db (collected st0)"
    using seed_rows_inv[OF select_seeds_rows[OF assms(1)] init_inv _ assms(2)]
    by (simp add: lookup_def coll_get_def)
  then show ?thesis using bfs_iter_inv assms(3) by blast
qed

lemma keys_nil_length:
  assumes "distinct (map fst d)" and "\<forall>k \<in> set (map fst d). k = []"
  shows "length d \<le> 1"
proof -
  have "set (map fst d) \<subseteq> {[]}" using assms(2) by auto
  then have "card (set (map fst d)) \<le> card {[] :: 'a list}" by (intro card_mono) auto
  then show ?thesis using distinct_card[OF assms(1)] by simp
qed

lemma empty_pk_one_row:
  assumes "coll_wf c" and "from_source src db c" and "get_pk src db t = []"
  shows "length (coll_get c t) \<le> 1"
proof (rule keys_nil_length)
  show "distinct (map fst (coll_get c t))" using assms(1) by (rule coll_get_distinct)
  show "\<forall>k \<in> set (map fst (coll_get c t)). k = []"
  proof
    fix k assume "k \<in> set (map fst (coll_get c t))"
    then obtain r where "lookup c t k = Some r"
      unfolding lookup_def by (metis image_set map_of_eq_None_iff not_Some_eq)
    then have "row_key r (get_pk src db t) = Inr k" using assms(2) unfolding from_source_def by blast
    then show "k = []" using assms(3) by simp
  qed
qed

lemma length_update_ge: "length d \<le> length (AList.update k v d)"
  by (induction d) auto

lemma coll_set_grows:
  "(lookup c t k \<noteq> None \<longrightarrow> lookup (coll_set c t0 k0 r) t k \<noteq> None)
   \<and> length (coll_get c t) \<le> length (coll_get (coll_set c t0 k0 r) t)"
  by (simp add: lookup_coll_set) (simp add: coll_set_def coll_get_update length_update_ge)

lemma seed_rows_grows:
  "seed_rows root pk seeds s = Inr s' \<Longrightarrow>
   (\<forall>t k. lookup (collected s) t k \<noteq> None \<longrightarrow> lookup (collected s') t k \<noteq> None)
   \<and> (\<forall>t. length (coll_get (collected s) t) \<le> length (coll_get (collected s') t))"
proof (induction seeds arbitrary: s)
  case Nil
  then show ?case by simp
next
  case (Cons r rs)
  from Cons.prems obtain k where k: "row_key r pk = Inr k"
    and rest: "seed_rows root pk rs
                 (s\<lparr>collected := coll_set (collected s) root k r, queue := queue s @ [(root, pk, k)]\<rparr>)
               = Inr s'"
    by (auto split: sum.splits)
  have g: "\<And>t k'. (lookup (collected s) t k' \<noteq> None \<longrightarrow>
                     lookup (coll_set (collected s) root k r) t k' \<noteq> None)
                   \<and> length (coll_get (collected s) t)
                       \<le> length (coll_get (coll_set (collected s) root k r) t)"
    by (rule coll_set_grows)
  show ?case
  proof (intro conjI allI impI)
    fix t k' assume "lookup (collected s) t k' \<noteq> None"
    then have "lookup (coll_set (collected s) root k r) t k' \<noteq> None" using g by blast
    then show "lookup (collected s') t k' \<noteq> None" using Cons.IH[OF rest] by simp
  next
    fix t
    have "length (coll_get (collected s) t) \<le> length (coll_get (coll_set (collected s) root k r) t)"
      using g by blast
    also have "\<dots> \<le> length (coll_get (collected s') t)" using Cons.IH[OF rest] by simp
    finally show "length (coll_get (collected s) t) \<le> length (coll_get (collected s') t)" .
  qed
qed

text \<open>The traversal and the whole run return.\<close>

lemma traverse_returns: "\<exists>res. traverse cfg src = Some res"
  by (auto simp: traverse_def Let_def bfs_loop_eq split: prod.splits sum.splits)

lemma main_returns: "\<exists>res. main cfg src tgt = Some res"
proof -
  obtain res where "traverse cfg src = Some res" using traverse_returns by blast
  then show ?thesis by (cases res) (simp_all add: main_def Let_def)
qed

text \<open>An error inside an iteration is the error of the loop.\<close>

lemma follow_parents_append:
  "follow_parents cursor db row (es1 @ es2) st =
     (case follow_parents cursor db row es1 st of
        Inl e \<Rightarrow> Inl e
      | Inr s \<Rightarrow> follow_parents cursor db row es2 s)"
proof (induction es1 arbitrary: st)
  case Nil
  then show ?case by simp
next
  case (Cons e es1)
  obtain a b c where e: "e = (a, b, c)" by (cases e)
  show ?case by (simp add: e Cons.IH split: sum.splits option.splits)
qed

lemma follow_children_append:
  "follow_children cursor db row (es1 @ es2) st =
     (case follow_children cursor db row es1 st of
        Inl e \<Rightarrow> Inl e
      | Inr s \<Rightarrow> follow_children cursor db row es2 s)"
proof (induction es1 arbitrary: st)
  case Nil
  then show ?case by simp
next
  case (Cons e es1)
  obtain a b c where e: "e = (a, b, c)" by (cases e)
  show ?case by (simp add: e Cons.IH split: sum.splits)
qed

lemma parent_fetch_raises:
  assumes "follow_parents cursor db row es1 st = Inr s1"
    and "row_get row fk_col \<noteq> VNull"
    and "select_one cursor parent_tbl parent_pk_col (row_get row fk_col) = Inl e"
  shows "follow_parents cursor db row (es1 @ (parent_tbl, fk_col, parent_pk_col) # es2) st = Inl e"
  using assms by (simp add: follow_parents_append)

lemma child_fetch_raises:
  assumes "follow_children cursor db row es1 st = Inr s1"
    and "row_get row child_ref_col \<noteq> VNull"
    and "select_all cursor child_tbl child_fk_col (row_get row child_ref_col) = Inl e"
  shows "follow_children cursor db row (es1 @ (child_tbl, child_fk_col, child_ref_col) # es2) st = Inl e"
  using assms by (simp add: follow_children_append)

lemma bfs_iter_empty:
  "queue st = [] \<Longrightarrow> bfs_iter cursor db references referenced_by n st = Inr st"
  by (cases n) simp_all

lemma bfs_iter_add:
  "bfs_iter cursor db references referenced_by n st0 = Inr st \<Longrightarrow>
   bfs_iter cursor db references referenced_by (n + m) st0
   = bfs_iter cursor db references referenced_by m st"
proof (induction n arbitrary: st0)
  case 0
  then show ?case by simp
next
  case (Suc n)
  show ?case
  proof (cases "queue st0 = []")
    case True
    then have "st = st0" using Suc.prems by simp
    then show ?thesis using True by (simp add: bfs_iter_empty)
  next
    case False
    then obtain s where s: "bfs_step cursor db references referenced_by st0 = Inr s"
      and r: "bfs_iter cursor db references referenced_by n s = Inr st"
      using Suc.prems by (auto split: sum.splits)
    show ?thesis using Suc.IH[OF r] s False by simp
  qed
qed

lemma step_error_is_loop_error:
  assumes "bfs_iter cursor db references referenced_by n st0 = Inr st"
    and "queue st \<noteq> []"
    and "bfs_step cursor db references referenced_by st = Inl e"
  shows "bfs_loop cursor db references referenced_by st0 = Some (Inl e)"
proof -
  have "bfs_iter cursor db references referenced_by (n + 1) st0
        = bfs_iter cursor db references referenced_by 1 st"
    using bfs_iter_add[OF assms(1)] .
  then have "bfs_iter cursor db references referenced_by (n + 1) st0 = Inl e"
    using assms(2,3) by simp
  then show ?thesis by (rule bfs_iter_error)
qed

section \<open>The target\<close>

lemma tgt_log_execute: "tgt_log (snd (tgt_execute tgt s)) = tgt_log tgt @ [s]"
  by (cases s) (simp_all add: tgt_execute_def Let_def split: option.splits)

lemma insert_all_log: "tgt_log (insert_all tgt t rs) = tgt_log tgt @ map (insert_stmt t) rs"
  by (induction rs arbitrary: tgt) (simp_all add: insert_row_def tgt_log_execute)

lemma materialize_log:
  "tgt_log (materialize tgt coll ts)
   = tgt_log tgt @ concat (map (\<lambda>t. map (insert_stmt t) (map snd (coll_get coll t)) @ [Commit]) ts)"
  by (induction ts arbitrary: tgt) (simp_all add: insert_all_log tgt_commit_def tgt_log_execute)

lemma refused_insert: "fst (insert_row tgt t r) \<noteq> None \<Longrightarrow> tgt_tables (snd (insert_row tgt t r)) = tgt_tables tgt"
  by (auto simp: insert_row_def insert_stmt_def tgt_execute_def Let_def split: option.splits if_splits)

lemma execute_refused [simp]: "truncate_refused (snd (tgt_execute tgt s)) = truncate_refused tgt"
  by (cases s) (simp_all add: tgt_execute_def Let_def split: option.splits)

lemma truncate_all_log: "tgt_log (truncate_all tgt ts) = tgt_log tgt @ map Truncate ts"
  by (induction ts arbitrary: tgt) (simp_all add: tgt_log_execute)

lemma truncate_tables:
  "map_of (tgt_tables (snd (tgt_execute tgt (Truncate t)))) t' =
     (if t' = t \<and> t \<notin> set (truncate_refused tgt) \<and> map_of (tgt_tables tgt) t \<noteq> None
      then Some [] else map_of (tgt_tables tgt) t')"
  by (auto simp: tgt_execute_def Let_def update_conv')

lemma truncate_all_refused [simp]: "truncate_refused (truncate_all tgt ts) = truncate_refused tgt"
  by (induction ts arbitrary: tgt) simp_all

lemma truncate_all_tables:
  "map_of (tgt_tables (truncate_all tgt ts)) t =
     (if t \<in> set ts \<and> t \<notin> set (truncate_refused tgt) \<and> map_of (tgt_tables tgt) t \<noteq> None
      then Some [] else map_of (tgt_tables tgt) t)"
proof (induction ts arbitrary: tgt)
  case Nil then show ?case by simp
next
  case (Cons a ts)
  show ?case by (auto simp: Cons.IH truncate_tables)
qed

lemma clear_log:
  "tgt_log (tgt_commit (clear_target_database tgt))
   = tgt_log tgt @ SetForeignKeyChecks False # map Truncate (map fst (tgt_tables tgt))
       @ [SetForeignKeyChecks True, Commit]"
  by (simp add: tgt_commit_def clear_target_database_def Let_def tgt_log_execute truncate_all_log)

lemma clear_state:
  "fk_checks (tgt_commit (clear_target_database tgt))
   \<and> tgt_committed (tgt_commit (clear_target_database tgt)) = tgt_tables (tgt_commit (clear_target_database tgt))
   \<and> map_of (tgt_committed (tgt_commit (clear_target_database tgt))) t =
       (if t \<notin> set (truncate_refused tgt) \<and> map_of (tgt_tables tgt) t \<noteq> None
        then Some [] else map_of (tgt_tables tgt) t)"
proof -
  have 1: "tgt_tables (snd (tgt_execute x (SetForeignKeyChecks b))) = tgt_tables x" for x b
    by (simp add: tgt_execute_def Let_def)
  have 2: "fk_checks (snd (tgt_execute x (SetForeignKeyChecks b))) = b" for x b
    by (simp add: tgt_execute_def Let_def)
  have 3: "tgt_committed (snd (tgt_execute x Commit)) = tgt_tables x
           \<and> tgt_tables (snd (tgt_execute x Commit)) = tgt_tables x
           \<and> fk_checks (snd (tgt_execute x Commit)) = fk_checks x" for x
    by (simp add: tgt_execute_def Let_def)
  have dom: "t \<in> set (map fst (tgt_tables tgt)) \<longleftrightarrow> map_of (tgt_tables tgt) t \<noteq> None"
    by (simp add: map_of_eq_None_iff)
  show ?thesis
    using dom by (auto simp add: tgt_commit_def clear_target_database_def Let_def 1 2 3 truncate_all_tables)
qed

lemma inserts_clear:
  "filter (is_insert_into t) (tgt_log (tgt_commit (clear_target_database tgt)))
   = filter (is_insert_into t) (tgt_log tgt)"
proof -
  have "filter (is_insert_into t) (map Truncate ts) = []" for ts by (induction ts) simp_all
  then show ?thesis by (simp add: clear_log)
qed

lemma filter_insert_stmts:
  "filter (is_insert_into t) (map (insert_stmt t') rs) = (if t' = t then map (insert_stmt t') rs else [])"
  by (induction rs) (simp_all add: insert_stmt_def Let_def)

lemma inserts_materialize:
  "distinct ts \<Longrightarrow>
   length (filter (is_insert_into t) (concat (map (\<lambda>t'. map (insert_stmt t') (g t') @ [Commit]) ts)))
   = (if t \<in> set ts then length (g t) else 0)"
  by (induction ts) (auto simp: filter_insert_stmts)

section \<open>Evaluating the examples\<close>

lemmas row_defs = customer_1_def customer_2_def customer_3_def region_10_def region_20_def
  employee_1_def employee_2_def

lemmas db_defs = shop_catalog_def shop_src_def keyed_src_def lost_src_def orphan_src_def hr_src_def
  shop_cfg_def shop_refs_def shop_refby_def orphan_refs_def orphan_refby_def hr_edges_def

lemmas state_defs = shop_seeded_def oslo_seeded_def shop_closure_def shop_final_def keyed_after_1_def
  keyed_after_2_def keyed_closure_def hr_seeded_def hr_final_def

lemmas dict_defs = row_get_def row_item_def edges_of_def dl_append_def coll_get_def coll_set_def
  lookup_def

lemmas query_defs = get_pk_def discover_fk_def sql_eq_def select_one_def select_all_def
  has_column_def select_seeds_def

lemmas bfs_defs = ensure_pk_def collect_row_def bfs_step_def

lemmas tgt_defs = old_tgt_def cleared_tgt_def tgt_execute_def tgt_commit_def insert_stmt_def
  insert_row_def clear_target_database_def

lemma shop_discover: "discover_fk shop_src ''shop'' = (shop_refs, shop_refby)"
  by (simp add: db_defs dict_defs query_defs)

lemma keyed_discover: "discover_fk keyed_src ''shop'' = (shop_refs, shop_refby)"
  by (simp add: db_defs dict_defs query_defs)

lemma lost_discover: "discover_fk lost_src ''shop'' = (shop_refs, shop_refby)"
  by (simp add: db_defs dict_defs query_defs)

lemma shop_seeds:
  "select_seeds shop_src ''customers'' (CityOne (VStr ''Pune'')) = Inr [customer_1, customer_2]"
  by (simp add: db_defs row_defs query_defs)

lemma keyed_seeds:
  "select_seeds keyed_src ''customers'' (CityOne (VStr ''Pune'')) = Inr [customer_1, customer_2]"
  by (simp add: db_defs row_defs query_defs)

lemma lost_seeds:
  "select_seeds lost_src ''customers'' (CityOne (VStr ''Pune'')) = Inr [customer_1, customer_2]"
  by (simp add: db_defs row_defs query_defs)

lemma orphan_discover: "discover_fk orphan_src ''shop'' = (orphan_refs, orphan_refby)"
  by (simp add: db_defs dict_defs query_defs)

lemma orphan_seeds:
  "select_seeds orphan_src ''customers'' (CityOne (VStr ''Pune'')) = Inr [customer_1, customer_2]"
  by (simp add: db_defs row_defs query_defs)

lemma orphan_root_pk: "get_pk orphan_src ''shop'' ''customers'' = [''id'']"
  by (simp add: db_defs query_defs)

text \<open>
  The seed query raises for a table without the column \<open>city\<close> and for a table name
  that does not parse unquoted.
\<close>

lemma select_seeds_unknown_column:
  "select_seeds shop_src ''regions'' (CityOne (VStr ''Pune'')) = Inl FetchError"
  by (simp add: db_defs row_defs query_defs)

lemma select_seeds_unparsed_name:
  "\<not> parses_unquoted cursor root_table \<Longrightarrow> select_seeds cursor root_table cf = Inl FetchError"
  by (simp add: select_seeds_def split: option.splits)

lemma shop_seeding:
  "seed_rows ''customers'' [''id''] [customer_1, customer_2]
     \<lparr>collected = [], pk_cache = [], queue = []\<rparr> = Inr shop_seeded"
  by (simp add: row_defs state_defs dict_defs)

lemma shop_root_pk: "get_pk shop_src ''shop'' ''customers'' = [''id'']"
  by (simp add: db_defs query_defs)

lemma keyed_root_pk: "get_pk keyed_src ''shop'' ''customers'' = [''id'']"
  by (simp add: db_defs query_defs)

lemma lost_root_pk: "get_pk lost_src ''shop'' ''customers'' = [''id'']"
  by (simp add: db_defs query_defs)

lemma shop_run: "bfs_iter shop_src ''shop'' shop_refs shop_refby 3 shop_seeded = Inr shop_final"
  by (simp add: eval_nat_numeral db_defs row_defs state_defs dict_defs query_defs bfs_defs)

lemma shop_traverse: "traverse (shop_cfg ''Pune'') shop_src = Some (Closure shop_refs shop_closure)"
proof -
  have "bfs_loop shop_src ''shop'' shop_refs shop_refby shop_seeded = Some (Inr shop_final)"
    using bfs_loop_iter[of shop_src "''shop''" shop_refs shop_refby 3 shop_seeded]
    by (simp add: shop_run shop_final_def)
  then show ?thesis
    by (simp add: traverse_def Let_def shop_cfg_def shop_discover shop_seeds shop_root_pk
        shop_seeding shop_final_def del: seed_rows.simps)
qed

lemma keyed_run_1: "bfs_iter keyed_src ''shop'' shop_refs shop_refby 1 shop_seeded = Inr keyed_after_1"
  by (simp add: db_defs row_defs state_defs dict_defs query_defs bfs_defs)

lemma keyed_step_2: "bfs_step keyed_src ''shop'' shop_refs shop_refby keyed_after_1 = Inr keyed_after_2"
  by (simp add: db_defs row_defs state_defs dict_defs query_defs bfs_defs)

lemma keyed_traverse: "traverse (shop_cfg ''Pune'') keyed_src = Some (Closure shop_refs keyed_closure)"
proof -
  have "bfs_loop keyed_src ''shop'' shop_refs shop_refby shop_seeded
        = Some (Inr \<lparr>collected = keyed_closure,
                        pk_cache = [(''regions'', [''code'']), (''customers'', [''id''])],
                        queue = []\<rparr>)"
    by (simp add: bfs_loop.simps db_defs row_defs state_defs dict_defs query_defs bfs_defs)
  then show ?thesis
    by (simp add: traverse_def Let_def shop_cfg_def keyed_discover keyed_seeds keyed_root_pk
        shop_seeding del: seed_rows.simps)
qed

lemma lost_run: "bfs_iter lost_src ''shop'' shop_refs shop_refby 1 shop_seeded = Inl FetchError"
  by (simp add: db_defs row_defs state_defs dict_defs query_defs bfs_defs)

text \<open>
  The cyclic example: from employee 1 the traversal reaches employee 2 through the
  foreign key, meets employee 1 again from both directions, and stops after two
  iterations.
\<close>

lemma hr_run: "bfs_loop hr_src ''hr'' hr_edges hr_edges hr_seeded = Some (Inr hr_final)"
  by (simp add: bfs_loop.simps db_defs row_defs state_defs dict_defs query_defs bfs_defs)

lemma old_tgt_cleared: "tgt_commit (clear_target_database old_tgt) = cleared_tgt"
  by (simp add: tgt_defs Let_def)

section \<open>The claims\<close>

text \<open>
  C1. Closure completeness says that a completed traversal is closed under parents: for
  every collected row and every outgoing foreign-key edge of its table whose value on the
  row is not null, a row of the referenced table with that value in the referenced column
  is collected, or the source has no such row (\<open>closure_complete\<close>). The program
  breaks it where a referenced table has no primary key: both customers of Pune are
  collected, regions 10 and 20 both exist in the source, and only region 10 is collected,
  because every row of \<open>regions\<close> gets the Row Key \<open>()\<close> and line 206 takes region 20
  for a row it already has.
\<close>

theorem closure_incomplete_without_primary_key:
  "traverse (shop_cfg ''Pune'') shop_src = Some (Closure shop_refs shop_closure)
   \<and> \<not> closure_complete shop_src shop_refs shop_closure"
proof -
  have "\<not> edge_ok shop_src shop_closure customer_2 (''regions'', ''region_code'', ''code'')"
    by (auto simp: edge_ok_def rows_of_def sql_eq_def db_defs row_defs state_defs dict_defs)
  then have "\<not> closure_complete shop_src shop_refs shop_closure"
    by (simp add: closure_complete_def shop_closure_def shop_refs_def edges_of_def)
  then show ?thesis using shop_traverse by simp
qed

theorem closure_incomplete_without_primary_key_witness:
  "get_pk shop_src ''shop'' ''regions'' = []
   \<and> select_one shop_src ''regions'' ''code'' (row_get customer_2 ''region_code'') = Inr (Some region_20)
   \<and> lookup shop_closure ''customers'' [VInt 2] = Some customer_2
   \<and> coll_get shop_closure ''regions'' = [([], region_10)]
   \<and> traverse (shop_cfg ''Pune'') shop_src = Some (Closure shop_refs shop_closure)
   \<and> \<not> closure_complete shop_src shop_refs shop_closure"
proof -
  have a: "get_pk shop_src ''shop'' ''regions'' = []"
    by (simp add: get_pk_def shop_src_def shop_catalog_def)
  have b: "select_one shop_src ''regions'' ''code'' (row_get customer_2 ''region_code'')
           = Inr (Some region_20)"
    by (simp add: db_defs row_defs dict_defs query_defs)
  have c: "lookup shop_closure ''customers'' [VInt 2] = Some customer_2"
    "coll_get shop_closure ''regions'' = [([], region_10)]"
    by (simp_all add: lookup_def coll_get_def shop_closure_def)
  show ?thesis using a b c closure_incomplete_without_primary_key by simp
qed

text \<open>
  The extent of that defect: whenever the primary key which the catalog reports for each
  source table identifies the rows of that table (which excludes a table without primary
  key that holds two different rows), every traversal that completes is closed under
  parents.
\<close>

theorem closure_complete_when_keys_identify:
  assumes "pk_identifies src (source_database cfg)"
    and "traverse cfg src = Some (Closure references coll)"
  shows "closure_complete src references coll"
  using assms(2)
proof (rule traverse_Closure)
  fix referenced_by seeds st0 st n
  let ?db = "source_database cfg"
  assume s: "select_seeds src (cfg_root_table cfg) (cfg_city_filter cfg) = Inr seeds"
    and s0: "seed_rows (cfg_root_table cfg) (get_pk src ?db (cfg_root_table cfg)) seeds
       \<lparr>collected = [], pk_cache = [], queue = []\<rparr> = Inr st0"
    and it: "bfs_iter src ?db references referenced_by n st0 = Inr st"
    and q: "queue st = []" and c: "coll = collected st"
  have i0: "(coll_wf (collected st0) \<and> cache_ok src ?db (pk_cache st0) \<and> from_source src ?db (collected st0))
      \<and> (\<forall>t k r. lookup (collected st0) t k = Some r \<longrightarrow> (\<exists>pk. (t, pk, k) \<in> set (queue st0)))"
    using seed_rows_inv[OF select_seeds_rows[OF s] init_inv _ s0]
    by (simp add: lookup_def coll_get_def)
  then have "settled src references st0 {}" by (simp add: settled_def)
  then have "settled src references st {}"
    using bfs_iter_settled[OF assms(1) _ _ it] i0 by blast
  moreover have "coll_wf (collected st)" using reach_inv[OF s s0 it] by simp
  ultimately show ?thesis using settled_complete q c by simp
qed

theorem closure_complete_when_keys_identify_witness:
  "pk_identifies keyed_src ''shop''
   \<and> traverse (shop_cfg ''Pune'') keyed_src = Some (Closure shop_refs keyed_closure)
   \<and> closure_complete keyed_src shop_refs keyed_closure"
proof -
  have a: "pk_identifies keyed_src (source_database (shop_cfg ''Pune''))"
    by (simp add: pk_identifies_def rows_of_def db_defs row_defs query_defs row_item_def)
  show ?thesis
    using a keyed_traverse closure_complete_when_keys_identify[OF a keyed_traverse]
    by (simp add: shop_cfg_def)
qed

text \<open>
  C2. The loop \<open>while q:\<close> returns from every state, over every source (a source is a
  finite list of tables, each a finite list of rows, whatever the foreign keys, cyclic or
  self-referencing): it stops after at most as many iterations as there are Row Keys of
  the source not yet collected plus queue entries, with an error or with the queue empty.
\<close>

theorem bfs_loop_terminates:
  "\<exists>res. bfs_loop cursor db references referenced_by st = Some res
         \<and> res = bfs_iter cursor db references referenced_by (bfs_measure cursor db st) st
         \<and> (case res of Inl e \<Rightarrow> True | Inr st' \<Rightarrow> queue st' = [])"
  using bfs_loop_eq[of cursor db references referenced_by st]
    bfs_iter_finished[of cursor db st "bfs_measure cursor db st" references referenced_by]
  by simp

theorem bfs_loop_terminates_witness:
  "(\<exists>res. bfs_loop hr_src ''hr'' hr_edges hr_edges hr_seeded = Some res
          \<and> res = bfs_iter hr_src ''hr'' hr_edges hr_edges (bfs_measure hr_src ''hr'' hr_seeded) hr_seeded
          \<and> (case res of Inl e \<Rightarrow> True | Inr st' \<Rightarrow> queue st' = []))
   \<and> bfs_loop hr_src ''hr'' hr_edges hr_edges hr_seeded = Some (Inr hr_final)
   \<and> bfs_iter hr_src ''hr'' hr_edges hr_edges (bfs_measure hr_src ''hr'' hr_seeded) hr_seeded
       = Inr hr_final"
proof -
  note T = bfs_loop_terminates[of hr_src "''hr''" hr_edges hr_edges hr_seeded]
  then obtain res where
    "bfs_loop hr_src ''hr'' hr_edges hr_edges hr_seeded = Some res"
    "res = bfs_iter hr_src ''hr'' hr_edges hr_edges (bfs_measure hr_src ''hr'' hr_seeded) hr_seeded"
    by blast
  then have "bfs_iter hr_src ''hr'' hr_edges hr_edges (bfs_measure hr_src ''hr'' hr_seeded) hr_seeded
             = Inr hr_final"
    using hr_run by simp
  then show ?thesis using T hr_run by blast
qed

text \<open>
  C3, amended. \<open>get_pk\<close> raises nothing of its own: for a table that does not exist or
  has no primary key the catalog query yields no row, and \<open>get_pk\<close> returns the empty
  list as a normal result.
\<close>

theorem get_pk_without_primary_key:
  assumes "\<forall>r \<in> set (key_column_usage cursor).
             \<not> (table_schema r = db \<and> table_name r = table \<and> constraint_name r = ''PRIMARY'')"
  shows "get_pk cursor db table = []"
  using assms by (simp add: get_pk_def filter_empty_conv)

theorem get_pk_without_primary_key_witness:
  "list_all (\<lambda>r. \<not> (table_schema r = ''shop'' \<and> table_name r = ''warehouses''
                        \<and> constraint_name r = ''PRIMARY''))
     (key_column_usage keyed_src)
   \<and> get_pk keyed_src ''shop'' ''warehouses'' = []"
proof -
  have a: "\<forall>r \<in> set (key_column_usage keyed_src).
      \<not> (table_schema r = ''shop'' \<and> table_name r = ''warehouses'' \<and> constraint_name r = ''PRIMARY'')"
    by (simp add: keyed_src_def shop_catalog_def)
  show ?thesis using a get_pk_without_primary_key[OF a] by (simp add: list_all_iff)
qed

text \<open>
  C3 as stated fails: \<open>regions\<close> exists and has no primary key, \<open>warehouses\<close> does not
  exist, and \<open>get_pk\<close> returns the empty list for both.
\<close>

theorem get_pk_returns_empty_list:
  "get_pk shop_src ''shop'' ''regions'' = [] \<and> get_pk shop_src ''shop'' ''warehouses'' = []"
  by (simp add: get_pk_def shop_src_def shop_catalog_def)

text \<open>
  C4. Throughout the traversal \<open>collected\<close> has each table once and, per table, each
  Row Key once. Seeding never removes a Row Key and never shortens a table's dictionary.
  In every state that the traversal reaches after seeding and any number of loop
  iterations, one more iteration only appends: every entry under a table and Row Key
  stays, with the same row at the same position, so no table's dictionary gets shorter.
\<close>

theorem collected_only_grows:
  assumes "coll_wf (collected s)"
    and "seed_rows root_table root_pk seeds s = Inr st0"
    and "bfs_iter cursor db references referenced_by n st0 = Inr st"
    and "bfs_step cursor db references referenced_by st = Inr st'"
  shows "coll_wf (collected st0)
       \<and> (\<forall>t k. lookup (collected s) t k \<noteq> None \<longrightarrow> lookup (collected st0) t k \<noteq> None)
       \<and> (\<forall>t. length (coll_get (collected s) t) \<le> length (coll_get (collected st0) t))
       \<and> coll_wf (collected st) \<and> coll_wf (collected st')
       \<and> (\<forall>t k r. lookup (collected st) t k = Some r \<longrightarrow> lookup (collected st') t k = Some r)
       \<and> (\<forall>t. prefix (coll_get (collected st) t) (coll_get (collected st') t))
       \<and> (\<forall>t. length (coll_get (collected st) t) \<le> length (coll_get (collected st') t))"
proof -
  have w0: "coll_wf (collected st0)"
    using seed_rows_wf[OF assms(1,2)] .
  then have w: "coll_wf (collected st)" using bfs_iter_wf assms(3) by blast
  then have w': "coll_wf (collected st')" using bfs_step_wf assms(4) by blast
  have p: "\<forall>t. prefix (coll_get (collected st) t) (coll_get (collected st') t)"
    using bfs_step_prefix[OF assms(4)] .
  then have "\<forall>t k r. lookup (collected st) t k = Some r \<longrightarrow> lookup (collected st') t k = Some r"
    using prefix_lookup by blast
  moreover have "\<forall>t. length (coll_get (collected st) t) \<le> length (coll_get (collected st') t)"
    using p prefix_length_le by blast
  ultimately show ?thesis using w0 w w' p seed_rows_grows[OF assms(2)] by blast
qed

theorem collected_only_grows_witness:
  "coll_wf (collected \<lparr>collected = [], pk_cache = [], queue = []\<rparr>)
   \<and> seed_rows ''customers'' [''id''] [customer_1, customer_2]
       \<lparr>collected = [], pk_cache = [], queue = []\<rparr> = Inr shop_seeded
   \<and> bfs_iter keyed_src ''shop'' shop_refs shop_refby 1 shop_seeded = Inr keyed_after_1
   \<and> bfs_step keyed_src ''shop'' shop_refs shop_refby keyed_after_1 = Inr keyed_after_2
   \<and> coll_wf (collected shop_seeded)
   \<and> coll_wf (collected keyed_after_1) \<and> coll_wf (collected keyed_after_2)
   \<and> lookup (collected keyed_after_1) ''regions'' [VInt 10] = Some region_10
   \<and> lookup (collected keyed_after_2) ''regions'' [VInt 10] = Some region_10
   \<and> prefix (coll_get (collected keyed_after_1) ''regions'')
         (coll_get (collected keyed_after_2) ''regions'')
   \<and> length (coll_get (collected keyed_after_1) ''regions'')
       \<le> length (coll_get (collected keyed_after_2) ''regions'')"
proof -
  have i: "coll_wf (collected \<lparr>collected = [], pk_cache = [], queue = []\<rparr>)"
    by (simp add: coll_wf_def)
  note T = collected_only_grows[OF i shop_seeding keyed_run_1 keyed_step_2]
  have a: "lookup (collected keyed_after_1) ''regions'' [VInt 10] = Some region_10"
    by (simp add: lookup_def coll_get_def keyed_after_1_def)
  have b: "lookup (collected keyed_after_2) ''regions'' [VInt 10] = Some region_10"
    using T a by blast
  show ?thesis using i shop_seeding keyed_run_1 keyed_step_2 T a b by blast
qed

text \<open>
  C5. A foreign-key edge whose value on the dequeued row is not null and whose parent
  lookup finds no row is skipped: the parent loop behaves exactly as if the edge were
  not in the list. It raises nothing for this edge, it goes on with the remaining
  edges, and it leaves \<open>collected\<close> as it is, so the referencing row stays and no entry
  appears for the missing parent.
\<close>

theorem dangling_parent_skipped:
  assumes "row_get row fk_col \<noteq> VNull"
    and "select_one cursor parent_tbl parent_pk_col (row_get row fk_col) = Inr None"
  shows "follow_parents cursor db row (es1 @ (parent_tbl, fk_col, parent_pk_col) # es2) st
         = follow_parents cursor db row (es1 @ es2) st"
  using assms
proof (induction es1 arbitrary: st)
  case Nil
  then show ?case by simp
next
  case (Cons e es1)
  obtain a b c where e: "e = (a, b, c)" by (cases e)
  show ?case using Cons by (simp add: e split: sum.splits option.splits)
qed

theorem dangling_parent_skipped_witness:
  "row_get customer_3 ''region_code'' \<noteq> VNull
   \<and> select_one keyed_src ''regions'' ''code'' (row_get customer_3 ''region_code'') = Inr None
   \<and> follow_parents keyed_src ''shop'' customer_3 [(''regions'', ''region_code'', ''code'')] oslo_seeded
       = Inr oslo_seeded
   \<and> traverse (shop_cfg ''Oslo'') keyed_src
       = Some (Closure shop_refs [(''customers'', [([VInt 3], customer_3)])])"
proof -
  have a: "row_get customer_3 ''region_code'' \<noteq> VNull"
    by (simp add: row_get_def customer_3_def)
  have b: "select_one keyed_src ''regions'' ''code'' (row_get customer_3 ''region_code'') = Inr None"
    by (simp add: db_defs row_defs dict_defs query_defs)
  have c: "follow_parents keyed_src ''shop'' customer_3 [(''regions'', ''region_code'', ''code'')] oslo_seeded
       = Inr oslo_seeded"
    using dangling_parent_skipped[OF a b, of "''shop''" "[]" "[]" oslo_seeded] by simp
  have d: "traverse (shop_cfg ''Oslo'') keyed_src
       = Some (Closure shop_refs [(''customers'', [([VInt 3], customer_3)])])"
    by (simp add: traverse_def Let_def bfs_loop.simps db_defs row_defs dict_defs query_defs bfs_defs)
  show ?thesis using a b c d by simp
qed

text \<open>
  C6. Let the traversal have reached a state after seeding and some iterations of the
  loop, and let the fetch for an edge of the row it dequeues next raise: the parent
  fetch of line 198, after the parent edges before it went through, or the child fetch
  of line 216, after all parent edges and the child edges before it went through. Then
  that iteration raises the error, the loop ends with it, the run ends with it, and the
  target has received the statements of the clear and its commit and nothing else: no
  \<open>INSERT\<close> is sent and nothing of the partial \<open>collected\<close> reaches the target.
\<close>

theorem fetch_error_aborts_run:
  assumes "discover_fk src (source_database cfg) = (references, referenced_by)"
    and "select_seeds src (cfg_root_table cfg) (cfg_city_filter cfg) = Inr seeds"
    and "seeds \<noteq> []"
    and "seed_rows (cfg_root_table cfg) (get_pk src (source_database cfg) (cfg_root_table cfg)) seeds
           \<lparr>collected = [], pk_cache = [], queue = []\<rparr> = Inr st0"
    and "bfs_iter src (source_database cfg) references referenced_by n st0 = Inr st"
    and "queue st = (table, pk_cols, pk_key) # q'"
    and "lookup (collected st) table pk_key = Some row"
    and "(edges_of references table = es1 @ (parent_tbl, fk_col, parent_pk_col) # es2
          \<and> follow_parents src (source_database cfg) row es1 (st\<lparr>queue := q'\<rparr>) = Inr s1
          \<and> row_get row fk_col \<noteq> VNull
          \<and> select_one src parent_tbl parent_pk_col (row_get row fk_col) = Inl e)
       \<or> (follow_parents src (source_database cfg) row (edges_of references table) (st\<lparr>queue := q'\<rparr>)
             = Inr s0
          \<and> edges_of referenced_by table = cs1 @ (child_tbl, child_fk_col, child_ref_col) # cs2
          \<and> follow_children src (source_database cfg) row cs1 s0 = Inr s1
          \<and> row_get row child_ref_col \<noteq> VNull
          \<and> select_all src child_tbl child_fk_col (row_get row child_ref_col) = Inl e)"
  shows "bfs_step src (source_database cfg) references referenced_by st = Inl e
         \<and> bfs_loop src (source_database cfg) references referenced_by st0 = Some (Inl e)
         \<and> main cfg src tgt = Some (Aborted e, tgt_commit (clear_target_database tgt))
         \<and> tgt_log (tgt_commit (clear_target_database tgt))
           = tgt_log tgt @ SetForeignKeyChecks False # map Truncate (map fst (tgt_tables tgt))
               @ [SetForeignKeyChecks True, Commit]"
proof -
  let ?db = "source_database cfg"
  have step: "bfs_step src ?db references referenced_by st = Inl e"
    using assms(8)
  proof
    assume p: "edges_of references table = es1 @ (parent_tbl, fk_col, parent_pk_col) # es2
          \<and> follow_parents src ?db row es1 (st\<lparr>queue := q'\<rparr>) = Inr s1
          \<and> row_get row fk_col \<noteq> VNull
          \<and> select_one src parent_tbl parent_pk_col (row_get row fk_col) = Inl e"
    then have "follow_parents src ?db row (edges_of references table) (st\<lparr>queue := q'\<rparr>) = Inl e"
      using parent_fetch_raises[of src ?db row es1 "st\<lparr>queue := q'\<rparr>" s1 fk_col parent_tbl
          parent_pk_col e es2]
      by simp
    then show ?thesis using assms(6,7) by (simp add: bfs_step_def)
  next
    assume c: "follow_parents src ?db row (edges_of references table) (st\<lparr>queue := q'\<rparr>) = Inr s0
          \<and> edges_of referenced_by table = cs1 @ (child_tbl, child_fk_col, child_ref_col) # cs2
          \<and> follow_children src ?db row cs1 s0 = Inr s1
          \<and> row_get row child_ref_col \<noteq> VNull
          \<and> select_all src child_tbl child_fk_col (row_get row child_ref_col) = Inl e"
    then have "follow_children src ?db row (edges_of referenced_by table) s0 = Inl e"
      using child_fetch_raises[of src ?db row cs1 s0 s1 child_ref_col child_tbl child_fk_col e cs2]
      by simp
    then show ?thesis using assms(6,7) c by (simp add: bfs_step_def)
  qed
  have "queue st \<noteq> []" using assms(6) by simp
  then have loop: "bfs_loop src ?db references referenced_by st0 = Some (Inl e)"
    using step_error_is_loop_error[OF assms(5) _ step] by simp
  then have "traverse cfg src = Some (Failed e)"
    using assms(1-4) by (simp add: traverse_def Let_def)
  then show ?thesis using step loop by (simp add: main_def Let_def clear_log)
qed

theorem fetch_error_aborts_run_witness:
  "select_one lost_src ''regions'' ''code'' (row_get customer_1 ''region_code'') = Inl FetchError
   \<and> bfs_step lost_src ''shop'' shop_refs shop_refby shop_seeded = Inl FetchError
   \<and> main (shop_cfg ''Pune'') lost_src old_tgt = Some (Aborted FetchError, cleared_tgt)
   \<and> select_all orphan_src ''orders'' ''customer_id'' (row_get customer_1 ''id'') = Inl FetchError
   \<and> bfs_step orphan_src ''shop'' orphan_refs orphan_refby shop_seeded = Inl FetchError
   \<and> main (shop_cfg ''Pune'') orphan_src old_tgt = Some (Aborted FetchError, cleared_tgt)
   \<and> tgt_log cleared_tgt
       = [SetForeignKeyChecks False, Truncate ''customers'', Truncate ''regions'', Truncate ''audit'',
          SetForeignKeyChecks True, Commit]"
proof -
  let ?cfg = "shop_cfg ''Pune''"
  let ?q = "[(''customers'', [''id''], [VInt 2])]"
  let ?s = "shop_seeded\<lparr>queue := ?q\<rparr>"
  have f: "source_database ?cfg = ''shop''" "cfg_root_table ?cfg = ''customers''"
    "cfg_city_filter ?cfg = CityOne (VStr ''Pune'')"
    by (simp_all add: shop_cfg_def)
  have q: "queue shop_seeded = (''customers'', [''id''], [VInt 1]) # ?q"
    by (simp add: shop_seeded_def)
  have r: "lookup (collected shop_seeded) ''customers'' [VInt 1] = Some customer_1"
    by (simp add: shop_seeded_def lookup_def coll_get_def)
  have i: "bfs_iter src (source_database ?cfg) refs refby 0 shop_seeded = Inr shop_seeded"
    for src refs refby by simp
  have a1: "discover_fk lost_src (source_database ?cfg) = (shop_refs, shop_refby)"
    using lost_discover f by simp
  have b1: "select_seeds lost_src (cfg_root_table ?cfg) (cfg_city_filter ?cfg)
            = Inr [customer_1, customer_2]"
    using lost_seeds f by simp
  have c: "[customer_1, customer_2] \<noteq> []" by simp
  have d1: "seed_rows (cfg_root_table ?cfg) (get_pk lost_src (source_database ?cfg) (cfg_root_table ?cfg))
             [customer_1, customer_2] \<lparr>collected = [], pk_cache = [], queue = []\<rparr> = Inr shop_seeded"
    using shop_seeding lost_root_pk f by simp
  have x1: "select_one lost_src ''regions'' ''code'' (row_get customer_1 ''region_code'') = Inl FetchError"
    by (simp add: db_defs row_defs dict_defs query_defs)
  have p1: "edges_of shop_refs ''customers'' = [] @ (''regions'', ''region_code'', ''code'') # []
          \<and> follow_parents lost_src (source_database ?cfg) customer_1 [] ?s = Inr ?s
          \<and> row_get customer_1 ''region_code'' \<noteq> VNull
          \<and> select_one lost_src ''regions'' ''code'' (row_get customer_1 ''region_code'') = Inl FetchError"
    using x1 by (simp add: edges_of_def shop_refs_def row_get_def customer_1_def)
  note T1 = fetch_error_aborts_run[OF a1 b1 c d1 i q r disjI1, OF p1, of old_tgt]
  have a2: "discover_fk orphan_src (source_database ?cfg) = (orphan_refs, orphan_refby)"
    using orphan_discover f by simp
  have b2: "select_seeds orphan_src (cfg_root_table ?cfg) (cfg_city_filter ?cfg)
            = Inr [customer_1, customer_2]"
    using orphan_seeds f by simp
  have d2: "seed_rows (cfg_root_table ?cfg) (get_pk orphan_src (source_database ?cfg) (cfg_root_table ?cfg))
             [customer_1, customer_2] \<lparr>collected = [], pk_cache = [], queue = []\<rparr> = Inr shop_seeded"
    using shop_seeding orphan_root_pk f by simp
  have x2: "select_all orphan_src ''orders'' ''customer_id'' (row_get customer_1 ''id'') = Inl FetchError"
    by (simp add: db_defs row_defs dict_defs query_defs)
  have p2: "follow_parents orphan_src (source_database ?cfg) customer_1 (edges_of orphan_refs ''customers'') ?s
             = Inr ?s
          \<and> edges_of orphan_refby ''customers'' = [] @ (''orders'', ''customer_id'', ''id'') # []
          \<and> follow_children orphan_src (source_database ?cfg) customer_1 [] ?s = Inr ?s
          \<and> row_get customer_1 ''id'' \<noteq> VNull
          \<and> select_all orphan_src ''orders'' ''customer_id'' (row_get customer_1 ''id'') = Inl FetchError"
    using x2 by (simp add: edges_of_def orphan_refs_def orphan_refby_def row_get_def customer_1_def)
  note T2 = fetch_error_aborts_run[OF a2 b2 c d2 i q r disjI2, OF p2, of old_tgt]
  show ?thesis
    using T1 T2 x1 x2 f by (simp add: old_tgt_cleared) (simp add: cleared_tgt_def)
qed

text \<open>
  C7. The materializer sends, for each table of its list in turn, one \<open>INSERT\<close> per
  collected row of the table and then one commit, whatever the outcome of the
  individual inserts: a refused insert does not stop the rows after it or the tables
  after it. A refused insert leaves the contents of the target as they were.
\<close>

theorem materialize_isolates_failures:
  "tgt_log (materialize tgt coll ts)
     = tgt_log tgt
       @ concat (map (\<lambda>t. map (insert_stmt t) (map snd (coll_get coll t)) @ [Commit]) ts)
   \<and> (fst (insert_row tgt t r) \<noteq> None \<longrightarrow>
        tgt_tables (snd (insert_row tgt t r)) = tgt_tables tgt
        \<and> tgt_log (snd (insert_row tgt t r)) = tgt_log tgt @ [insert_stmt t r])"
  using materialize_log[of tgt coll ts] refused_insert[of tgt t r]
  by (simp add: insert_row_def tgt_log_execute)

theorem materialize_isolates_failures_witness:
  "fst (insert_row cleared_tgt ''customers'' customer_1) \<noteq> None
   \<and> tgt_tables (snd (insert_row cleared_tgt ''customers'' customer_1)) = tgt_tables cleared_tgt
   \<and> tgt_log (materialize cleared_tgt keyed_closure [''regions'', ''customers''])
       = tgt_log cleared_tgt
         @ [insert_stmt ''regions'' region_10, insert_stmt ''regions'' region_20, Commit,
            insert_stmt ''customers'' customer_1, insert_stmt ''customers'' customer_2, Commit]
   \<and> tgt_committed (materialize cleared_tgt keyed_closure [''regions'', ''customers''])
       = [(''customers'', [customer_2]), (''regions'', [region_10, region_20]),
          (''audit'', [customer_1])]"
proof -
  have a: "fst (insert_row cleared_tgt ''customers'' customer_1) \<noteq> None"
    by (simp add: tgt_defs row_defs row_get_def Let_def)
  have b: "tgt_committed (materialize cleared_tgt keyed_closure [''regions'', ''customers''])
       = [(''customers'', [customer_2]), (''regions'', [region_10, region_20]),
          (''audit'', [customer_1])]"
    by (simp add: tgt_defs row_defs row_get_def coll_get_def keyed_closure_def Let_def)
  show ?thesis
    using a b materialize_isolates_failures[of cleared_tgt keyed_closure "[''regions'', ''customers'']"
        "''customers''" customer_1]
    by (simp add: coll_get_def keyed_closure_def)
qed

text \<open>
  C8. The materializer is run on the collected tables sorted by the number of entries
  in \<open>references[table]\<close>, ascending, 0 for a table that \<open>references\<close> does not hold; the
  sort keeps every collected table once and leaves tables of equal count in the order
  in which they were first collected.
\<close>

theorem tables_ordered_by_edge_count:
  "sorted (map (edge_count references) (ordered_tables references coll))
   \<and> mset (ordered_tables references coll) = mset (map fst coll)
   \<and> filter (\<lambda>t. edge_count references t = k) (ordered_tables references coll)
       = filter (\<lambda>t. edge_count references t = k) (map fst coll)
   \<and> (map_of references t = None \<longrightarrow> edge_count references t = 0)
   \<and> (traverse cfg src = Some (Closure references coll) \<longrightarrow>
        main cfg src tgt
          = Some (Completed,
                  materialize (tgt_commit (clear_target_database tgt)) coll
                    (ordered_tables references coll)))"
proof -
  have "map_of references t = None \<longrightarrow> edge_count references t = 0"
    by (simp add: edge_count_def edges_of_def)
  moreover have "traverse cfg src = Some (Closure references coll) \<longrightarrow>
        main cfg src tgt
          = Some (Completed,
                  materialize (tgt_commit (clear_target_database tgt)) coll
                    (ordered_tables references coll))"
    by (simp add: main_def)
  ultimately show ?thesis by (simp add: ordered_tables_def sort_key_stable)
qed

theorem tables_ordered_by_edge_count_witness:
  "map_of shop_refs ''regions'' = None \<and> edge_count shop_refs ''regions'' = 0
   \<and> edge_count shop_refs ''customers'' = 1
   \<and> ordered_tables shop_refs keyed_closure = [''regions'', ''customers'']
   \<and> traverse (shop_cfg ''Pune'') keyed_src = Some (Closure shop_refs keyed_closure)
   \<and> main (shop_cfg ''Pune'') keyed_src old_tgt
       = Some (Completed, materialize cleared_tgt keyed_closure [''regions'', ''customers''])"
proof -
  have a: "map_of shop_refs ''regions'' = None" by (simp add: shop_refs_def)
  have b: "ordered_tables shop_refs keyed_closure = [''regions'', ''customers'']"
    by (simp add: ordered_tables_def edge_count_def edges_of_def shop_refs_def keyed_closure_def)
  have c: "edge_count shop_refs ''customers'' = 1"
    by (simp add: edge_count_def edges_of_def shop_refs_def)
  show ?thesis
    using a b c keyed_traverse
      tables_ordered_by_edge_count[of shop_refs keyed_closure 0 "''regions''" "shop_cfg ''Pune''"
        keyed_src old_tgt]
    by (simp add: old_tgt_cleared)
qed

text \<open>
  C9. For a table whose primary-key lookup yields the empty list, every row gets the
  Row Key \<open>()\<close>; in every state that the traversal reaches after seeding and any number
  of loop iterations, \<open>collected\<close> holds at most one row of that table; and a run sends
  at most one \<open>INSERT\<close> into that table.
\<close>

theorem empty_pk_collapse:
  assumes "get_pk src (source_database cfg) t = []"
  shows "(\<forall>r. row_key r (get_pk src (source_database cfg) t) = Inr [])
         \<and> (\<forall>seeds st0 n st.
            select_seeds src (cfg_root_table cfg) (cfg_city_filter cfg) = Inr seeds \<longrightarrow>
            seed_rows (cfg_root_table cfg) (get_pk src (source_database cfg) (cfg_root_table cfg)) seeds
               \<lparr>collected = [], pk_cache = [], queue = []\<rparr> = Inr st0 \<longrightarrow>
            bfs_iter src (source_database cfg) references referenced_by n st0 = Inr st \<longrightarrow>
            length (coll_get (collected st) t) \<le> 1)
         \<and> (\<forall>oc tgt'. main cfg src tgt = Some (oc, tgt') \<longrightarrow>
               length (filter (is_insert_into t) (tgt_log tgt'))
               \<le> length (filter (is_insert_into t) (tgt_log tgt)) + 1)"
proof (intro conjI allI impI)
  fix r show "row_key r (get_pk src (source_database cfg) t) = Inr []"
    using assms by simp
next
  fix seeds st0 n st
  assume "select_seeds src (cfg_root_table cfg) (cfg_city_filter cfg) = Inr seeds"
    "seed_rows (cfg_root_table cfg) (get_pk src (source_database cfg) (cfg_root_table cfg)) seeds
               \<lparr>collected = [], pk_cache = [], queue = []\<rparr> = Inr st0"
    "bfs_iter src (source_database cfg) references referenced_by n st0 = Inr st"
  then have "coll_wf (collected st) \<and> from_source src (source_database cfg) (collected st)"
    using reach_inv by blast
  then show "length (coll_get (collected st) t) \<le> 1"
    using empty_pk_one_row assms by blast
next
  fix oc tgt'
  assume m: "main cfg src tgt = Some (oc, tgt')"
  let ?t1 = "tgt_commit (clear_target_database tgt)"
  show "length (filter (is_insert_into t) (tgt_log tgt'))
        \<le> length (filter (is_insert_into t) (tgt_log tgt)) + 1"
  proof (cases "traverse cfg src")
    case None
    then show ?thesis using m by (simp add: main_def)
  next
    case (Some res)
    show ?thesis
    proof (cases res)
      case (Failed e)
      then have "tgt' = ?t1" using m Some by (simp add: main_def Let_def)
      then show ?thesis by (simp add: inserts_clear)
    next
      case Empty
      then have "tgt' = ?t1" using m Some by (simp add: main_def Let_def)
      then show ?thesis by (simp add: inserts_clear)
    next
      case (Closure refs coll)
      then have t': "tgt' = materialize ?t1 coll (ordered_tables refs coll)"
        using m Some by (simp add: main_def Let_def)
      have tr: "traverse cfg src = Some (Closure refs coll)" using Some Closure by simp
      have inv: "coll_wf coll \<and> from_source src (source_database cfg) coll"
        using tr
      proof (rule traverse_Closure)
        fix referenced_by seeds st0 st n
        assume "select_seeds src (cfg_root_table cfg) (cfg_city_filter cfg) = Inr seeds"
          "seed_rows (cfg_root_table cfg) (get_pk src (source_database cfg) (cfg_root_table cfg)) seeds
             \<lparr>collected = [], pk_cache = [], queue = []\<rparr> = Inr st0"
          "bfs_iter src (source_database cfg) refs referenced_by n st0 = Inr st"
          "coll = collected st"
        then show ?thesis using reach_inv by blast
      qed
      then have one: "length (coll_get coll t) \<le> 1" using empty_pk_one_row assms by blast
      have "distinct (ordered_tables refs coll)"
        using inv by (simp add: ordered_tables_def coll_wf_def)
      then have "length (filter (is_insert_into t)
          (concat (map (\<lambda>t'. map (insert_stmt t') (map snd (coll_get coll t')) @ [Commit])
             (ordered_tables refs coll)))) \<le> 1"
        using inserts_materialize[of "ordered_tables refs coll" t "\<lambda>t'. map snd (coll_get coll t')"] one
        by simp
      then show ?thesis unfolding t' by (simp add: materialize_log inserts_clear)
    qed
  qed
qed

theorem empty_pk_collapse_witness:
  "get_pk shop_src ''shop'' ''regions'' = []
   \<and> select_seeds shop_src ''customers'' (CityOne (VStr ''Pune'')) = Inr [customer_1, customer_2]
   \<and> seed_rows ''customers'' (get_pk shop_src ''shop'' ''customers'') [customer_1, customer_2]
        \<lparr>collected = [], pk_cache = [], queue = []\<rparr> = Inr shop_seeded
   \<and> bfs_iter shop_src ''shop'' shop_refs shop_refby 3 shop_seeded = Inr shop_final
   \<and> length (coll_get (collected shop_final) ''regions'') \<le> 1
   \<and> main (shop_cfg ''Pune'') shop_src old_tgt
       = Some (Completed, materialize cleared_tgt shop_closure (ordered_tables shop_refs shop_closure))
   \<and> length (filter (is_insert_into ''regions'')
        (tgt_log (materialize cleared_tgt shop_closure (ordered_tables shop_refs shop_closure))))
       \<le> length (filter (is_insert_into ''regions'') (tgt_log old_tgt)) + 1"
proof -
  let ?cfg = "shop_cfg ''Pune''"
  have f: "source_database ?cfg = ''shop''" "cfg_root_table ?cfg = ''customers''"
    "cfg_city_filter ?cfg = CityOne (VStr ''Pune'')"
    by (simp_all add: shop_cfg_def)
  have a: "get_pk shop_src (source_database ?cfg) ''regions'' = []"
    by (simp add: f get_pk_def shop_src_def shop_catalog_def)
  have b: "select_seeds shop_src (cfg_root_table ?cfg) (cfg_city_filter ?cfg) = Inr [customer_1, customer_2]"
    using shop_seeds f by simp
  have c: "seed_rows (cfg_root_table ?cfg) (get_pk shop_src (source_database ?cfg) (cfg_root_table ?cfg))
             [customer_1, customer_2] \<lparr>collected = [], pk_cache = [], queue = []\<rparr> = Inr shop_seeded"
    using shop_seeding shop_root_pk f by simp
  have d: "bfs_iter shop_src (source_database ?cfg) shop_refs shop_refby 3 shop_seeded = Inr shop_final"
    using shop_run f by simp
  have m: "main ?cfg shop_src old_tgt
       = Some (Completed, materialize cleared_tgt shop_closure (ordered_tables shop_refs shop_closure))"
    by (simp add: main_def shop_traverse old_tgt_cleared)
  note T = empty_pk_collapse[OF a, of shop_refs shop_refby old_tgt]
  have g: "length (coll_get (collected shop_final) ''regions'') \<le> 1"
    using T b c d by blast
  have h: "length (filter (is_insert_into ''regions'')
        (tgt_log (materialize cleared_tgt shop_closure (ordered_tables shop_refs shop_closure))))
       \<le> length (filter (is_insert_into ''regions'') (tgt_log old_tgt)) + 1"
    using T m by blast
  show ?thesis using a b c d g m h f by simp
qed

text \<open>
  C10. The target is cleared and the clear is committed before the seed query is looked
  at: when the city filter matches no root row, the run ends without a single
  \<open>INSERT\<close>, and the target is left as the clear left it, with foreign-key checks
  switched off for the truncations and on again after them, the clear committed, and
  every table empty whose \<open>TRUNCATE\<close> the target did not refuse (a refused \<open>TRUNCATE\<close>
  is caught and its table keeps its rows).
\<close>

theorem empty_seed_target_cleared:
  assumes "select_seeds src (cfg_root_table cfg) (cfg_city_filter cfg) = Inr []"
  shows "main cfg src tgt = Some (NoSeeds, tgt_commit (clear_target_database tgt))
         \<and> tgt_log (tgt_commit (clear_target_database tgt))
           = tgt_log tgt @ SetForeignKeyChecks False # map Truncate (map fst (tgt_tables tgt))
               @ [SetForeignKeyChecks True, Commit]
         \<and> fk_checks (tgt_commit (clear_target_database tgt))
         \<and> tgt_committed (tgt_commit (clear_target_database tgt))
             = tgt_tables (tgt_commit (clear_target_database tgt))
         \<and> (\<forall>t \<in> set (map fst (tgt_tables tgt)). t \<notin> set (truncate_refused tgt) \<longrightarrow>
               map_of (tgt_committed (tgt_commit (clear_target_database tgt))) t = Some [])"
proof -
  have "traverse cfg src = Some Empty"
    using assms by (simp add: traverse_def Let_def split: prod.splits)
  then have "main cfg src tgt = Some (NoSeeds, tgt_commit (clear_target_database tgt))"
    by (simp add: main_def Let_def)
  moreover have "\<forall>t \<in> set (map fst (tgt_tables tgt)). t \<notin> set (truncate_refused tgt) \<longrightarrow>
               map_of (tgt_committed (tgt_commit (clear_target_database tgt))) t = Some []"
  proof (intro ballI impI)
    fix t assume t: "t \<in> set (map fst (tgt_tables tgt))" "t \<notin> set (truncate_refused tgt)"
    then have "map_of (tgt_tables tgt) t \<noteq> None" by (simp add: map_of_eq_None_iff)
    moreover have "map_of (tgt_committed (tgt_commit (clear_target_database tgt))) t =
       (if t \<notin> set (truncate_refused tgt) \<and> map_of (tgt_tables tgt) t \<noteq> None
        then Some [] else map_of (tgt_tables tgt) t)"
      using clear_state[of tgt t] by blast
    ultimately show "map_of (tgt_committed (tgt_commit (clear_target_database tgt))) t = Some []"
      using t(2) by simp
  qed
  ultimately show ?thesis using clear_log[of tgt] clear_state[of tgt] by blast
qed

theorem empty_seed_target_cleared_witness:
  "select_seeds keyed_src ''customers'' (CityOne (VStr ''Atlantis'')) = Inr []
   \<and> main (shop_cfg ''Atlantis'') keyed_src old_tgt = Some (NoSeeds, cleared_tgt)
   \<and> ''customers'' \<in> set (map fst (tgt_tables old_tgt))
   \<and> ''customers'' \<notin> set (truncate_refused old_tgt)
   \<and> map_of (tgt_tables old_tgt) ''customers'' = Some [customer_3]
   \<and> map_of (tgt_committed cleared_tgt) ''customers'' = Some []
   \<and> map_of (tgt_committed cleared_tgt) ''audit'' = Some [customer_1]"
proof -
  let ?cfg = "shop_cfg ''Atlantis''"
  have a: "select_seeds keyed_src (cfg_root_table ?cfg) (cfg_city_filter ?cfg) = Inr []"
    by (simp add: db_defs row_defs query_defs)
  have b: "''customers'' \<in> set (map fst (tgt_tables old_tgt))"
    "''customers'' \<notin> set (truncate_refused old_tgt)"
    by (simp_all add: old_tgt_def)
  note T = empty_seed_target_cleared[OF a, of old_tgt]
  have c: "map_of (tgt_committed (tgt_commit (clear_target_database old_tgt))) ''customers'' = Some []"
    using T b by blast
  have d: "main ?cfg keyed_src old_tgt = Some (NoSeeds, tgt_commit (clear_target_database old_tgt))"
    using T by blast
  show ?thesis
    using a b c d by (simp add: old_tgt_cleared shop_cfg_def) (simp add: old_tgt_def cleared_tgt_def)
qed

end
